theory Spec2Isabelle
  imports Main "HOL-Library.Word" "HOL-Library.Log_Nat"
begin

text \<open>
  A model of the WhatsApp link generator: the recipient parser and the link builder of
  the page, the batched dispatcher \<open>openLinks\<close>, and the handler \<open>POST\<close> of the send
  endpoint. Exceptions are values of a sum type, the browser and the third-party API
  are event lists and parameters, numbers are the rationals that doubles denote, with
  the rounding of each addition, and the timer chain of the dispatcher is a function
  with a bound on its runs.
\<close>

section \<open>JavaScript strings\<close>

text \<open>
  A JavaScript string is a sequence of UTF-16 code units; \<open>length\<close>, \<open>split\<close>,
  \<open>trim\<close>, \<open>replace\<close> and \<open>encodeURIComponent\<close> all work on code units.
  String literals of the source are written \<open>js ''...''\<close> (ASCII only).
\<close>

type_synonym code_unit = "16 word"
type_synonym jsstring = "code_unit list"

definition js :: "string \<Rightarrow> jsstring" where
  "js s = map of_char s"

text \<open>The regular expression class \<open>\d\<close>: the ASCII digits \<open>0\<close> to \<open>9\<close>.\<close>

definition is_digit :: "code_unit \<Rightarrow> bool" where
  "is_digit c = (0x30 \<le> c \<and> c \<le> 0x39)"

definition plus_sign :: code_unit where
  "plus_sign = 0x2B"

text \<open>The class \<open>[\n,;\t]\<close> of \<open>parseNumbers\<close>.\<close>

definition is_sep :: "code_unit \<Rightarrow> bool" where
  "is_sep c = (c = 0x0A \<or> c = 0x2C \<or> c = 0x3B \<or> c = 0x09)"

text \<open>
  What \<open>String.prototype.trim\<close> strips: ECMAScript's WhiteSpace (TAB, VT, FF, SP, NBSP,
  ZWNBSP and the other space separators) and LineTerminator (LF, CR, LS, PS).
\<close>

definition is_ws :: "code_unit \<Rightarrow> bool" where
  "is_ws c = (c = 0x09 \<or> c = 0x0A \<or> c = 0x0B \<or> c = 0x0C \<or> c = 0x0D \<or> c = 0x20
     \<or> c = 0xA0 \<or> c = 0x1680 \<or> (0x2000 \<le> c \<and> c \<le> 0x200A) \<or> c = 0x2028 \<or> c = 0x2029
     \<or> c = 0x202F \<or> c = 0x205F \<or> c = 0x3000 \<or> c = 0xFEFF)"

definition js_trim :: "jsstring \<Rightarrow> jsstring" where
  "js_trim s = rev (dropWhile is_ws (rev (dropWhile is_ws s)))"

text \<open>
  \<open>text.split(/[\n,;\t]+/)\<close>: the pieces between the maximal runs of separators. A
  separator at the start or the end leaves an empty piece there, and the empty text
  splits into one empty piece.
\<close>

fun cons_head :: "code_unit \<Rightarrow> jsstring list \<Rightarrow> jsstring list" where
  "cons_head c [] = [[c]]"
| "cons_head c (t # ts) = (c # t) # ts"

function js_split :: "jsstring \<Rightarrow> jsstring list" where
  "js_split [] = [[]]"
| "js_split (c # cs) =
     (if is_sep c then [] # js_split (dropWhile is_sep cs)
      else cons_head c (js_split cs))"
  by pat_completeness auto
termination
  by (relation "measure length") (auto simp: less_Suc_eq_le length_dropWhile_le)

text \<open>\<open>xs.join("\n")\<close>\<close>

fun js_join :: "jsstring \<Rightarrow> jsstring list \<Rightarrow> jsstring" where
  "js_join sep [] = []"
| "js_join sep [x] = x"
| "js_join sep (x # y # ys) = x @ sep @ js_join sep (y # ys)"

section \<open>The recipient parser\<close>

record recipient =
  phone :: jsstring

definition normalizePhone :: "jsstring \<Rightarrow> jsstring option" where
  "normalizePhone raw =
     (let digits = filter (\<lambda>c. is_digit c \<or> c = plus_sign) raw in
      if digits = [] then None
      else
        let cleaned = (if take 1 digits = [plus_sign] then digits else filter is_digit digits);
            numeric = filter (\<lambda>c. c \<noteq> plus_sign) cleaned
        in if length numeric < 8 \<or> length numeric > 15 then None
           else Some (if take 1 numeric = [plus_sign] then numeric else numeric))"

definition candidates :: "jsstring \<Rightarrow> jsstring list" where
  "candidates text = filter (\<lambda>s. s \<noteq> []) (map js_trim (js_split text))"

text \<open>
  The \<open>for\<close> loop of \<open>parseNumbers\<close>, with its two mutable locals: the set \<open>unique\<close>
  and the array \<open>recipients\<close>.
\<close>

fun parse_loop :: "jsstring list \<Rightarrow> jsstring set \<Rightarrow> recipient list \<Rightarrow> recipient list" where
  "parse_loop [] unique recipients = recipients"
| "parse_loop (c # cs) unique recipients =
     (case normalizePhone c of
        None \<Rightarrow> parse_loop cs unique recipients
      | Some p \<Rightarrow>
          if p \<noteq> [] \<and> p \<notin> unique
          then parse_loop cs (insert p unique) (recipients @ [\<lparr>phone = p\<rparr>])
          else parse_loop cs unique recipients)"

definition parseNumbers :: "jsstring \<Rightarrow> recipient list" where
  "parseNumbers text = parse_loop (candidates text) {} []"

text \<open>
  The values the parser accepts, before deduplication, and what keeping the first
  occurrence of each value means.
\<close>

definition accepted :: "jsstring \<Rightarrow> jsstring list" where
  "accepted text = List.map_filter normalizePhone (candidates text)"

primrec first_occurrences :: "'a list \<Rightarrow> 'a list" where
  "first_occurrences [] = []"
| "first_occurrences (x # xs) = x # removeAll x (first_occurrences xs)"

text \<open>Replacing every occurrence of one character by another.\<close>

definition replace_all :: "code_unit \<Rightarrow> code_unit \<Rightarrow> jsstring \<Rightarrow> jsstring" where
  "replace_all a b s = map (\<lambda>c. if c = a then b else c) s"

section \<open>Chat links\<close>

datatype js_error = URIError | TypeError | NetworkError | SyntaxError

text \<open>
  \<open>encodeURIComponent\<close> (ECMAScript, Encode): a code unit of the unescaped set
  \<open>A-Z a-z 0-9 - _ . ! ~ * ' ( )\<close> is copied; any other code point is written as
  the \<open>%XX\<close> of each octet of its UTF-8 encoding, in upper-case hexadecimal; an
  unpaired surrogate throws URIError.
\<close>

definition is_unescaped :: "code_unit \<Rightarrow> bool" where
  "is_unescaped c =
     ((0x41 \<le> c \<and> c \<le> 0x5A) \<or> (0x61 \<le> c \<and> c \<le> 0x7A) \<or> (0x30 \<le> c \<and> c \<le> 0x39)
      \<or> c = 0x5F \<or> c = 0x2D \<or> c = 0x2E \<or> c = 0x21 \<or> c = 0x7E \<or> c = 0x2A \<or> c = 0x27
      \<or> c = 0x28 \<or> c = 0x29)"

definition is_leading_surrogate :: "code_unit \<Rightarrow> bool" where
  "is_leading_surrogate c = (0xD800 \<le> c \<and> c \<le> 0xDBFF)"

definition is_trailing_surrogate :: "code_unit \<Rightarrow> bool" where
  "is_trailing_surrogate c = (0xDC00 \<le> c \<and> c \<le> 0xDFFF)"

definition surrogate_pair_cp :: "code_unit \<Rightarrow> code_unit \<Rightarrow> nat" where
  "surrogate_pair_cp lead trail =
     (unat lead - 0xD800) * 0x400 + (unat trail - 0xDC00) + 0x10000"

definition utf8_octets :: "nat \<Rightarrow> nat list" where
  "utf8_octets cp =
     (if cp < 0x80 then [cp]
      else if cp < 0x800 then [0xC0 + cp div 64, 0x80 + cp mod 64]
      else if cp < 0x10000 then
        [0xE0 + cp div 4096, 0x80 + (cp div 64) mod 64, 0x80 + cp mod 64]
      else
        [0xF0 + cp div 262144, 0x80 + (cp div 4096) mod 64, 0x80 + (cp div 64) mod 64,
         0x80 + cp mod 64])"

definition hex_digit :: "nat \<Rightarrow> code_unit" where
  "hex_digit n = (if n < 10 then of_nat (0x30 + n) else of_nat (0x41 + (n - 10)))"

definition percent_octet :: "nat \<Rightarrow> jsstring" where
  "percent_octet b = [0x25, hex_digit (b div 16), hex_digit (b mod 16)]"

definition percent_code_point :: "nat \<Rightarrow> jsstring" where
  "percent_code_point cp = concat (map percent_octet (utf8_octets cp))"

fun encodeURIComponent :: "jsstring \<Rightarrow> js_error + jsstring" where
  "encodeURIComponent [] = Inr []"
| "encodeURIComponent (c # cs) =
     (if is_unescaped c then
        (case encodeURIComponent cs of Inl e \<Rightarrow> Inl e | Inr r \<Rightarrow> Inr (c # r))
      else if is_trailing_surrogate c then Inl URIError
      else if is_leading_surrogate c then
        (case cs of
           [] \<Rightarrow> Inl URIError
         | d # ds \<Rightarrow>
             if is_trailing_surrogate d then
               (case encodeURIComponent ds of
                  Inl e \<Rightarrow> Inl e
                | Inr r \<Rightarrow> Inr (percent_code_point (surrogate_pair_cp c d) @ r))
             else Inl URIError)
      else
        (case encodeURIComponent cs of
           Inl e \<Rightarrow> Inl e
         | Inr r \<Rightarrow> Inr (percent_code_point (unat c) @ r)))"

definition makeWhatsAppLink :: "jsstring \<Rightarrow> jsstring \<Rightarrow> js_error + jsstring" where
  "makeWhatsAppLink ph msg =
     (case encodeURIComponent msg of
        Inl e \<Rightarrow> Inl e
      | Inr text \<Rightarrow> Inr (js ''https://wa.me/'' @ ph @ js ''?text='' @ text))"

text \<open>
  The standard the encoding follows, stated on its own: a string without unpaired
  surrogates is a sequence of Unicode code points, and each code point outside the
  unreserved set is percent-encoded octet by octet in UTF-8.
\<close>

fun well_formed :: "jsstring \<Rightarrow> bool" where
  "well_formed [] = True"
| "well_formed [c] = (\<not> is_leading_surrogate c \<and> \<not> is_trailing_surrogate c)"
| "well_formed (c # d # ds) =
     (if is_leading_surrogate c then is_trailing_surrogate d \<and> well_formed ds
      else \<not> is_trailing_surrogate c \<and> well_formed (d # ds))"

fun code_points :: "jsstring \<Rightarrow> nat list" where
  "code_points [] = []"
| "code_points [c] = [unat c]"
| "code_points (c # d # ds) =
     (if is_leading_surrogate c \<and> is_trailing_surrogate d
      then surrogate_pair_cp c d # code_points ds
      else unat c # code_points (d # ds))"

definition percent_encode :: "nat list \<Rightarrow> jsstring" where
  "percent_encode cps =
     concat (map (\<lambda>cp. if cp < 0x80 \<and> is_unescaped (of_nat cp) then [of_nat cp]
                        else percent_code_point cp) cps)"

text \<open>The link for a message that can be encoded.\<close>

definition chat_link :: "jsstring \<Rightarrow> jsstring \<Rightarrow> jsstring" where
  "chat_link ph msg = js ''https://wa.me/'' @ ph @ js ''?text='' @ percent_encode (code_points msg)"

section \<open>JSON values\<close>

text \<open>
  What \<open>JSON.parse\<close> returns. The handlers only test a number for being zero and pass
  it on, so numbers are integers here. An object is the list of its own properties.
\<close>

datatype json =
    JNull
  | JBool bool
  | JNum int
  | JStr jsstring
  | JArr "json list"
  | JObj "(jsstring \<times> json) list"

fun truthy :: "json \<Rightarrow> bool" where
  "truthy JNull = False"
| "truthy (JBool b) = b"
| "truthy (JNum n) = (n \<noteq> 0)"
| "truthy (JStr s) = (s \<noteq> [])"
| "truthy (JArr xs) = True"
| "truthy (JObj kvs) = True"

text \<open>
  \<open>v?.key\<close> for a key that no built-in prototype defines (\<open>recipients\<close>, \<open>message\<close>,
  \<open>error\<close>, \<open>count\<close>, \<open>messages\<close>, \<open>id\<close>): only an object can have it; \<open>None\<close> is
  \<open>undefined\<close>.
\<close>

fun get_prop :: "json \<Rightarrow> jsstring \<Rightarrow> json option" where
  "get_prop (JObj kvs) k = map_of kvs k"
| "get_prop v k = None"

text \<open>\<open>v || d\<close>\<close>

definition or_else :: "json option \<Rightarrow> json \<Rightarrow> json" where
  "or_else v d = (case v of None \<Rightarrow> d | Some x \<Rightarrow> if truthy x then x else d)"

text \<open>\<open>v?.[0]\<close> for a value that is not \<open>undefined\<close>\<close>

fun index0 :: "json \<Rightarrow> json option" where
  "index0 (JArr (x # xs)) = Some x"
| "index0 (JStr (c # cs)) = Some (JStr [c])"
| "index0 (JObj kvs) = map_of kvs (js ''0'')"
| "index0 v = None"

section \<open>JavaScript numbers\<close>

text \<open>
  A number of the page is a finite double, that is a rational \<open>m * 2 ^ e\<close> with
  \<open>\<bar>m\<bar> < 2 ^ 53\<close>. \<open>to_double\<close> rounds a rational to the nearest such value, ties to the
  even significand, as every arithmetic operation of JavaScript does. Overflow to
  \<open>Infinity\<close> and the subnormal range are left out: the dispatcher adds a batch size to
  an index, and its sums stay far from both while the index is below the length of an
  array.
\<close>

definition pow2 :: "int \<Rightarrow> rat" where
  "pow2 e = (if 0 \<le> e then 2 ^ nat e else 1 / 2 ^ nat (- e))"

text \<open>\<open>binade x\<close> is the exponent \<open>e\<close> with \<open>2 ^ e \<le> x < 2 ^ (e + 1)\<close>, for \<open>x > 0\<close>.\<close>

definition binade :: "rat \<Rightarrow> int" where
  "binade x =
     (case quotient_of x of
        (p, q) \<Rightarrow> let e = bitlen p - bitlen q in if pow2 e \<le> x then e else e - 1)"

definition round_even :: "rat \<Rightarrow> int" where
  "round_even q =
     (let n = \<lfloor>q\<rfloor>; d = q - of_int n
      in if d < 1 / 2 then n else if 1 / 2 < d then n + 1 else if even n then n else n + 1)"

definition to_double :: "rat \<Rightarrow> rat" where
  "to_double x =
     (if x = 0 then 0
      else let u = pow2 (binade \<bar>x\<bar> - 52) in of_int (round_even (x / u)) * u)"

definition is_double :: "rat \<Rightarrow> bool" where
  "is_double x = (to_double x = x)"

text \<open>\<open>x + y\<close> on numbers.\<close>

definition js_add :: "rat \<Rightarrow> rat \<Rightarrow> rat" where
  "js_add x y = to_double (x + y)"

text \<open>ToIntegerOrInfinity on a finite number: the fraction is dropped.\<close>

definition to_integer :: "rat \<Rightarrow> int" where
  "to_integer x = (if 0 \<le> x then \<lfloor>x\<rfloor> else \<lceil>x\<rceil>)"

section \<open>The batched link dispatcher\<close>

text \<open>
  \<open>xs.slice(start, end)\<close>: the arguments are made integers, a negative one counts from the
  end, and both are clamped to the array.
\<close>

definition js_slice :: "'a list \<Rightarrow> rat \<Rightarrow> rat \<Rightarrow> 'a list" where
  "js_slice xs start end' =
     (let len = int (length xs);
          relative_start = to_integer start;
          relative_end = to_integer end';
          k = (if relative_start < 0 then max (len + relative_start) 0
               else min relative_start len);
          final = (if relative_end < 0 then max (len + relative_end) 0
                   else min relative_end len)
      in take (nat (final - k)) (drop (nat k) xs))"

text \<open>
  The state of the page. \<open>batchSize\<close> and \<open>delayMs\<close> are the numbers
  \<open>Number(e.target.value || 1)\<close> of the two inputs: any finite double.
\<close>

record page =
  rawNumbers :: jsstring
  message :: jsstring
  delayMs :: rat
  batchSize :: rat
  sending :: bool
  useApi :: bool

text \<open>
  \<open>handleFile\<close>, given the text of the file: the numbers parsed from the file are added
  to the text area, one per line.
\<close>

definition handleFile :: "jsstring \<Rightarrow> page \<Rightarrow> page" where
  "handleFile text st =
     (let recips = parseNumbers text;
          joined = js_join (js ''\<newline>'') (map phone recips)
      in st\<lparr>rawNumbers :=
              (if rawNumbers st \<noteq> [] then rawNumbers st @ js ''\<newline>'' @ joined
               else joined)\<rparr>)"

text \<open>What \<open>openLinks\<close> does to the world, in order.\<close>

datatype event =
    SetSending bool
  | WindowOpen jsstring
  | SetTimeout rat
  | Fetch "jsstring list" jsstring
  | Alert json
  | AlertQueued "json option"

text \<open>The answer to \<open>fetch("/api/send")\<close> followed by \<open>res.json()\<close>.\<close>

datatype api_reply = FetchRejected | JsonRejected | Reply bool json

text \<open>
  The \<open>for\<close> loop over one batch: the opens issued, and the exception that ended the
  loop, if any.
\<close>

fun open_batch :: "jsstring \<Rightarrow> recipient list \<Rightarrow> event list \<times> js_error option" where
  "open_batch msg [] = ([], None)"
| "open_batch msg (r # rs) =
     (case makeWhatsAppLink (phone r) msg of
        Inl e \<Rightarrow> ([], Some e)
      | Inr url \<Rightarrow>
          (case open_batch msg rs of (evs, err) \<Rightarrow> (WindowOpen url # evs, err)))"

text \<open>
  \<open>openNextBatch\<close> reschedules itself with \<open>setTimeout\<close>. The first argument bounds the
  number of times it runs; \<open>None\<close> says that a timer is still pending after that many
  runs. The result lists the events of each run, and the exception that stopped the
  chain, if any. The source adds \<open>batchSize\<close> to \<open>index\<close> twice in a run, for the end of
  the slice and for the new \<open>index\<close>; both sums are the same number.
\<close>

fun openNextBatch ::
  "nat \<Rightarrow> recipient list \<Rightarrow> jsstring \<Rightarrow> rat \<Rightarrow> rat \<Rightarrow> rat
     \<Rightarrow> (event list list \<times> js_error option) option" where
  "openNextBatch 0 toOpen msg bsize delay index = None"
| "openNextBatch (Suc fuel) toOpen msg bsize delay index =
     (let next_index = js_add index bsize in
      case open_batch msg (js_slice toOpen index next_index) of
        (evs, Some e) \<Rightarrow> Some ([evs], Some e)
      | (evs, None) \<Rightarrow>
          if next_index < of_nat (length toOpen) then
            (case openNextBatch fuel toOpen msg bsize delay next_index of
               None \<Rightarrow> None
             | Some (later, err) \<Rightarrow> Some ((evs @ [SetTimeout delay]) # later, err))
          else Some ([evs], None))"

record dispatch =
  final :: page
  ticks :: "event list list"
  raised :: "js_error option"

text \<open>
  \<open>openLinks\<close>, with the memoised \<open>recipients\<close> it closes over. The first run of
  \<open>openNextBatch\<close> is inside \<open>try\<close>, so \<open>setSending(false)\<close> follows it at once; the later
  runs are timer callbacks.
\<close>

definition openLinks ::
  "nat \<Rightarrow> (jsstring list \<Rightarrow> jsstring \<Rightarrow> api_reply) \<Rightarrow> page \<Rightarrow> recipient list
     \<Rightarrow> dispatch option" where
  "openLinks fuel server st rs =
     (if message st = [] \<or> length rs = 0 then
        Some \<lparr>final = st, ticks = [], raised = None\<rparr>
      else if useApi st then
        (let call = Fetch (map phone rs) (message st);
             done = (\<lambda>evs err.
               Some \<lparr>final = st\<lparr>sending := False\<rparr>,
                     ticks = [[SetSending True, call] @ evs @ [SetSending False]],
                     raised = err\<rparr>)
         in case server (map phone rs) (message st) of
              FetchRejected \<Rightarrow> done [] (Some NetworkError)
            | JsonRejected \<Rightarrow> done [] (Some SyntaxError)
            | Reply res_ok data \<Rightarrow>
                if \<not> res_ok then
                  done [Alert (or_else (get_prop data (js ''error''))
                                 (JStr (js ''Server sending failed'')))] None
                else if data = JNull then done [] (Some TypeError)
                else done [AlertQueued (get_prop data (js ''count''))] None)
      else
        (case openNextBatch fuel (js_slice rs 0 (of_nat (length rs))) (message st) (batchSize st)
                (delayMs st) 0 of
           None \<Rightarrow> None
         | Some (runs, err) \<Rightarrow>
             Some \<lparr>final = st\<lparr>sending := False\<rparr>,
                   ticks = (case runs of
                              [] \<Rightarrow> [[SetSending True, SetSending False]]
                            | first # later \<Rightarrow>
                                ([SetSending True] @ first @ [SetSending False]) # later),
                   raised = err\<rparr>))"

text \<open>
  The render of the component builds the link of each of the first hundred recipients
  for the preview list, with the message as it is typed. An exception there leaves no
  page, hence no button.
\<close>

fun preview :: "jsstring \<Rightarrow> recipient list \<Rightarrow> js_error + jsstring list" where
  "preview msg [] = Inr []"
| "preview msg (r # rs) =
     (case makeWhatsAppLink (phone r) msg of
        Inl e \<Rightarrow> Inl e
      | Inr href \<Rightarrow> (case preview msg rs of Inl e \<Rightarrow> Inl e | Inr hrefs \<Rightarrow> Inr (href # hrefs)))"

definition render :: "page \<Rightarrow> js_error + jsstring list" where
  "render st = preview (message st) (js_slice (parseNumbers (rawNumbers st)) 0 100)"

text \<open>
  The component with its button pressed: \<open>recipients\<close> is \<open>parseNumbers(rawNumbers)\<close>,
  the render comes first, and the button is disabled while \<open>sending\<close>, for an empty
  message and for no recipient.
\<close>

definition Page_openLinks ::
  "nat \<Rightarrow> (jsstring list \<Rightarrow> jsstring \<Rightarrow> api_reply) \<Rightarrow> page \<Rightarrow> dispatch option" where
  "Page_openLinks fuel server st =
     (case render st of
        Inl e \<Rightarrow> Some \<lparr>final = st, ticks = [], raised = Some e\<rparr>
      | Inr hrefs \<Rightarrow>
          if sending st \<or> message st = [] \<or> length (parseNumbers (rawNumbers st)) = 0 then
            Some \<lparr>final = st, ticks = [], raised = None\<rparr>
          else openLinks fuel server st (parseNumbers (rawNumbers st)))"

text \<open>A server that cannot be reached.\<close>

definition offline :: "jsstring list \<Rightarrow> jsstring \<Rightarrow> api_reply" where
  "offline rs msg = FetchRejected"

text \<open>
  For the examples: a page with no recipient, twenty-five recipients, and pages whose
  text holds the first twenty-five, eleven and seven of them.
\<close>

definition hello_page :: page where
  "hello_page =
     \<lparr>rawNumbers = [], message = js ''Hi there!'', delayMs = 1200, batchSize = 10,
      sending = False, useApi = False\<rparr>"

definition twenty_five :: "recipient list" where
  "twenty_five = map (\<lambda>s. \<lparr>phone = js s\<rparr>)
     [''14155552601'', ''14155552602'', ''14155552603'', ''14155552604'',
      ''14155552605'', ''14155552606'', ''14155552607'', ''14155552608'',
      ''14155552609'', ''14155552610'', ''14155552611'', ''14155552612'',
      ''14155552613'', ''14155552614'', ''14155552615'', ''14155552616'',
      ''14155552617'', ''14155552618'', ''14155552619'', ''14155552620'',
      ''14155552621'', ''14155552622'', ''14155552623'', ''14155552624'',
      ''14155552625'']"

definition page_25 :: page where
  "page_25 = hello_page
     \<lparr>rawNumbers :=
        (js ''14155552601,14155552602,14155552603,14155552604,'' @
          js ''14155552605,14155552606,14155552607,14155552608,'' @
          js ''14155552609,14155552610,14155552611,14155552612,'' @
          js ''14155552613,14155552614,14155552615,14155552616,'' @
          js ''14155552617,14155552618,14155552619,14155552620,'' @
          js ''14155552621,14155552622,14155552623,14155552624,'' @
          js ''14155552625'')\<rparr>"

definition page_11 :: page where
  "page_11 = hello_page
     \<lparr>rawNumbers :=
        (js ''14155552601,14155552602,14155552603,14155552604,'' @
          js ''14155552605,14155552606,14155552607,14155552608,'' @
          js ''14155552609,14155552610,14155552611'')\<rparr>"

definition page_7 :: page where
  "page_7 = hello_page
     \<lparr>rawNumbers :=
        (js ''14155552601,14155552602,14155552603,14155552604,'' @
          js ''14155552605,14155552606,14155552607'')\<rparr>"

text \<open>
  The double that \<open>Number("1.1")\<close> is: \<open>0x1.199999999999Ap0\<close>, a little more than 1.1.
\<close>

definition double_1_1 :: rat where
  "double_1_1 = 4953959590107546 / 2 ^ 52"

text \<open>The URLs opened in one run, and the API calls of one run.\<close>

fun opened :: "event list \<Rightarrow> jsstring list" where
  "opened [] = []"
| "opened (WindowOpen url # evs) = url # opened evs"
| "opened (ev # evs) = opened evs"

fun is_fetch :: "event \<Rightarrow> bool" where
  "is_fetch (Fetch rs msg) = True"
| "is_fetch ev = False"

text \<open>The number of links opened in each run of a dispatch.\<close>

definition group_sizes :: "dispatch option \<Rightarrow> nat list option" where
  "group_sizes out = (case out of None \<Rightarrow> None | Some r \<Rightarrow> Some (map (\<lambda>t. length (opened t)) (ticks r)))"

text \<open>
  Consecutive groups of \<open>b\<close> elements, the last one possibly smaller, and the number of
  such groups.
\<close>

function chunks :: "nat \<Rightarrow> 'a list \<Rightarrow> 'a list list" where
  "chunks b xs = (if b = 0 \<or> xs = [] then [] else take b xs # chunks b (drop b xs))"
  by pat_completeness auto
termination
  by (relation "measure (\<lambda>(b, xs). length xs)") auto

definition ceil_div :: "nat \<Rightarrow> nat \<Rightarrow> nat" where
  "ceil_div n b = (n + b - 1) div b"

section \<open>The send endpoint\<close>

record env =
  ACCESS_TOKEN :: "jsstring option"
  PHONE_NUMBER_ID :: "jsstring option"

text \<open>\<open>!v\<close> for an environment variable: unset or empty.\<close>

definition unset :: "jsstring option \<Rightarrow> bool" where
  "unset v = (case v of None \<Rightarrow> True | Some s \<Rightarrow> s = [])"

record graph_request =
  url :: jsstring
  authorization :: jsstring
  body :: json

text \<open>
  One outbound call: \<open>fetch\<close> or \<open>res.json()\<close> threw (with \<open>String(err)\<close>), or the
  response came with \<open>res.ok\<close> and its JSON.
\<close>

datatype graph_outcome = Threw jsstring | Replied bool json

record send_result =
  to :: json
  ok :: bool
  msg_id :: "json option"
  error :: "json option"

datatype response_body = ErrorBody jsstring | SendBody nat "send_result list"

record http_response =
  status :: nat
  payload :: response_body

definition make_request :: "jsstring \<Rightarrow> jsstring \<Rightarrow> json \<Rightarrow> json \<Rightarrow> graph_request" where
  "make_request token pid recipient msg =
     \<lparr>url = js ''https://graph.facebook.com/v20.0/'' @ pid @ js ''/messages'',
      authorization = js ''Bearer '' @ token,
      body = JObj [(js ''messaging_product'', JStr (js ''whatsapp'')),
                   (js ''to'', recipient),
                   (js ''type'', JStr (js ''text'')),
                   (js ''text'', JObj [(js ''body'', msg)])]\<rparr>"

text \<open>\<open>json?.messages?.[0]?.id\<close>\<close>

definition message_id :: "json \<Rightarrow> json option" where
  "message_id j =
     (case get_prop j (js ''messages'') of
        None \<Rightarrow> None
      | Some ms \<Rightarrow>
          if ms = JNull then None
          else (case index0 ms of
                  None \<Rightarrow> None
                | Some m \<Rightarrow> if m = JNull then None else get_prop m (js ''id'')))"

definition record_of :: "json \<Rightarrow> graph_outcome \<Rightarrow> send_result" where
  "record_of recipient out =
     (case out of
        Threw err \<Rightarrow> \<lparr>to = recipient, ok = False, msg_id = None, error = Some (JStr err)\<rparr>
      | Replied res_ok j \<Rightarrow>
          if \<not> res_ok then \<lparr>to = recipient, ok = False, msg_id = None, error = Some j\<rparr>
          else \<lparr>to = recipient, ok = True, msg_id = message_id j, error = None\<rparr>)"

text \<open>
  The \<open>for\<close> loop of \<open>POST\<close>. The third-party API is a function of its own state \<open>'w\<close>
  and the request; the loop threads that state, pushes one record per recipient and
  logs the calls it makes.
\<close>

fun send_loop ::
  "('w \<Rightarrow> graph_request \<Rightarrow> graph_outcome \<times> 'w) \<Rightarrow> jsstring \<Rightarrow> jsstring \<Rightarrow> json
     \<Rightarrow> json list \<Rightarrow> send_result list \<Rightarrow> graph_request list \<Rightarrow> 'w
     \<Rightarrow> send_result list \<times> graph_request list \<times> 'w" where
  "send_loop api token pid msg [] results calls w = (results, calls, w)"
| "send_loop api token pid msg (recipient # rest) results calls w =
     (case api w (make_request token pid recipient msg) of
        (out, w') \<Rightarrow>
          send_loop api token pid msg rest (results @ [record_of recipient out])
            (calls @ [make_request token pid recipient msg]) w')"

text \<open>\<open>Array.isArray(v)\<close>, and the elements of an array.\<close>

fun is_array :: "json \<Rightarrow> bool" where
  "is_array (JArr xs) = True"
| "is_array v = False"

fun elements :: "json \<Rightarrow> json list" where
  "elements (JArr xs) = xs"
| "elements v = []"

text \<open>An environment variable inside a template literal.\<close>

definition env_text :: "jsstring option \<Rightarrow> jsstring" where
  "env_text v = (case v of None \<Rightarrow> js ''undefined'' | Some s \<Rightarrow> s)"

text \<open>
  \<open>POST\<close>: the response, the outbound calls made, and the state the API is left in.
  The request's body is \<open>None\<close> when \<open>req.json()\<close> rejects.
\<close>

definition POST ::
  "('w \<Rightarrow> graph_request \<Rightarrow> graph_outcome \<times> 'w) \<Rightarrow> env \<Rightarrow> 'w \<Rightarrow> json option
     \<Rightarrow> http_response \<times> graph_request list \<times> 'w" where
  "POST api e w req_json =
     (let parsed = (case req_json of None \<Rightarrow> JNull | Some b \<Rightarrow> b);
          rcpts = or_else (get_prop parsed (js ''recipients'')) (JArr []);
          msg = or_else (get_prop parsed (js ''message'')) (JStr [])
      in if \<not> is_array rcpts \<or> length (elements rcpts) = 0 \<or> \<not> truthy msg then
           (\<lparr>status = 400, payload = ErrorBody (js ''Invalid payload'')\<rparr>, [], w)
         else if unset (ACCESS_TOKEN e) \<or> unset (PHONE_NUMBER_ID e) then
           (\<lparr>status = 501,
             payload = ErrorBody (js ''Server not configured for API sending'')\<rparr>, [], w)
         else
           (case send_loop api (env_text (ACCESS_TOKEN e)) (env_text (PHONE_NUMBER_ID e)) msg
                   (elements rcpts) [] [] w of
              (results, calls, w') \<Rightarrow>
                (\<lparr>status = 200, payload = SendBody (length (filter ok results)) results\<rparr>,
                 calls, w')))"

text \<open>
  The outcomes of calling the API once per request, each call made in the state the
  previous one left.
\<close>

fun outcomes ::
  "('w \<Rightarrow> graph_request \<Rightarrow> graph_outcome \<times> 'w) \<Rightarrow> 'w \<Rightarrow> graph_request list
     \<Rightarrow> graph_outcome list" where
  "outcomes api w [] = []"
| "outcomes api w (r # rs) = (case api w r of (out, w') \<Rightarrow> out # outcomes api w' rs)"

text \<open>
  The body the endpoint accepts: it parsed, \<open>recipients\<close> is a non-empty array and
  \<open>message\<close> is not empty (nor \<open>null\<close>, \<open>false\<close> or \<open>0\<close>).
\<close>

fun nonempty_array :: "json option \<Rightarrow> bool" where
  "nonempty_array (Some (JArr (x # xs))) = True"
| "nonempty_array v = False"

fun nonempty :: "json option \<Rightarrow> bool" where
  "nonempty (Some v) = truthy v"
| "nonempty None = False"

definition valid_payload :: "json option \<Rightarrow> bool" where
  "valid_payload req =
     (case req of
        None \<Rightarrow> False
      | Some b \<Rightarrow> nonempty_array (get_prop b (js ''recipients''))
                  \<and> nonempty (get_prop b (js ''message'')))"

text \<open>A call that the API accepted.\<close>

fun succeeded :: "graph_outcome \<Rightarrow> bool" where
  "succeeded (Replied res_ok j) = res_ok"
| "succeeded (Threw err) = False"

text \<open>
  For the examples: a configured environment, a request for three recipients, and an
  API that counts its calls and rejects the second one.
\<close>

definition configured :: env where
  "configured = \<lparr>ACCESS_TOKEN = Some (js ''token''), PHONE_NUMBER_ID = Some (js ''100200300'')\<rparr>"

definition three_recipients :: "json list" where
  "three_recipients =
     [JStr (js ''14155552671''), JStr (js ''5511999999999''), JStr (js ''447911123456'')]"

definition send_request :: json where
  "send_request =
     JObj [(js ''recipients'', JArr three_recipients), (js ''message'', JStr (js ''Hi there!''))]"

definition second_rejected :: "nat \<Rightarrow> graph_request \<Rightarrow> graph_outcome \<times> nat" where
  "second_rejected w r =
     (if w = 1 then Replied False (JObj [(js ''error'', JStr (js ''rejected''))])
      else Replied True (JObj [(js ''messages'', JArr [JObj [(js ''id'', JStr (js ''wamid''))]])]),
      w + 1)"

section \<open>Properties of the recipient parser\<close>

lemma digit_not_plus: "is_digit c \<Longrightarrow> c \<noteq> plus_sign"
  by (auto simp: is_digit_def plus_sign_def)

lemma digit_not_sep: "is_digit c \<Longrightarrow> \<not> is_sep c"
  by (auto simp: is_digit_def is_sep_def)

lemma digit_not_ws: "is_digit c \<Longrightarrow> \<not> is_ws c"
  unfolding is_digit_def is_ws_def word_le_nat_alt by auto

lemma numeric_eq:
  "filter (\<lambda>c. c \<noteq> plus_sign)
     (if take 1 (filter (\<lambda>c. is_digit c \<or> c = plus_sign) raw) = [plus_sign]
      then filter (\<lambda>c. is_digit c \<or> c = plus_sign) raw
      else filter is_digit (filter (\<lambda>c. is_digit c \<or> c = plus_sign) raw))
   = filter is_digit raw"
proof -
  have a: "filter (\<lambda>c. c \<noteq> plus_sign) (filter (\<lambda>c. is_digit c \<or> c = plus_sign) raw)
      = filter is_digit raw"
    by (induction raw) (auto dest: digit_not_plus)
  have b: "filter (\<lambda>c. c \<noteq> plus_sign) (filter is_digit (filter (\<lambda>c. is_digit c \<or> c = plus_sign) raw))
      = filter is_digit raw"
    by (induction raw) (auto dest: digit_not_plus)
  show ?thesis using a b by simp
qed

lemma normalizePhone_digits:
  "normalizePhone raw =
     (if 8 \<le> length (filter is_digit raw) \<and> length (filter is_digit raw) \<le> 15
      then Some (filter is_digit raw) else None)"
proof (cases "filter (\<lambda>c. is_digit c \<or> c = plus_sign) raw = []")
  case True
  then have "filter is_digit raw = []"
    by (auto simp: filter_empty_conv)
  with True show ?thesis by (simp add: normalizePhone_def)
next
  case False
  then show ?thesis
    unfolding normalizePhone_def Let_def numeric_eq by auto
qed

lemma normalizePhone_Some:
  assumes "normalizePhone raw = Some p"
  shows "p = filter is_digit raw" and "8 \<le> length p" and "length p \<le> 15" and "p \<noteq> []"
  using assms by (auto simp: normalizePhone_digits split: if_splits)

lemma removeAll_commute: "removeAll x (removeAll y xs) = removeAll y (removeAll x xs)"
  by (induction xs) auto

lemma removeAll_first_occurrences:
  "removeAll x (first_occurrences xs) = first_occurrences (removeAll x xs)"
proof (induction xs)
  case Nil
  then show ?case by simp
next
  case (Cons a xs)
  show ?case
  proof (cases "x = a")
    case True
    have l: "removeAll a (first_occurrences (a # xs)) = removeAll a (first_occurrences xs)"
      by simp
    have r: "first_occurrences (removeAll a (a # xs)) = first_occurrences (removeAll a xs)"
      by simp
    show ?thesis
      unfolding True l r using Cons.IH [unfolded True] .
  next
    case False
    have "removeAll x (first_occurrences (a # xs))
        = a # removeAll a (removeAll x (first_occurrences xs))"
      using False by (simp add: removeAll_commute [of x a])
    also have "\<dots> = a # removeAll a (first_occurrences (removeAll x xs))"
      by (simp only: Cons.IH)
    also have "\<dots> = first_occurrences (removeAll x (a # xs))"
      using False by simp
    finally show ?thesis .
  qed
qed

lemma parse_loop_phones:
  "map phone (parse_loop cs U acc) =
     map phone acc @ first_occurrences (filter (\<lambda>p. p \<notin> U) (List.map_filter normalizePhone cs))"
proof (induction cs arbitrary: U acc)
  case Nil
  then show ?case by (simp add: List.map_filter_simps)
next
  case (Cons c cs)
  show ?case
  proof (cases "normalizePhone c")
    case None
    then show ?thesis using Cons.IH by (simp add: List.map_filter_simps)
  next
    case (Some p)
    have ne: "p \<noteq> []" using normalizePhone_Some(4)[OF Some] .
    show ?thesis
    proof (cases "p \<in> U")
      case True
      with Some ne show ?thesis using Cons.IH by (simp add: List.map_filter_simps)
    next
      case False
      have "removeAll p (filter (\<lambda>q. q \<notin> U) ys) = filter (\<lambda>q. q \<notin> insert p U) ys" for ys
        by (induction ys) auto
      with False Some ne show ?thesis
        using Cons.IH[of "insert p U" "acc @ [\<lparr>phone = p\<rparr>]"]
        by (simp add: List.map_filter_simps removeAll_first_occurrences)
    qed
  qed
qed

lemma distinct_first_occurrences: "distinct (first_occurrences xs)"
  by (induction xs) (auto simp: distinct_removeAll)

lemma set_first_occurrences: "set (first_occurrences xs) = set xs"
  by (induction xs) auto

lemma parseNumbers_phones: "map phone (parseNumbers t) = first_occurrences (accepted t)"
  by (simp add: parseNumbers_def accepted_def parse_loop_phones)

lemma set_map_filter: "set (List.map_filter f xs) = {y. \<exists>x \<in> set xs. f x = Some y}"
  by (induction xs) (auto simp: List.map_filter_simps split: option.splits)

lemma parseNumbers_accepted:
  assumes "r \<in> set (parseNumbers t)"
  shows "\<exists>tok \<in> set (candidates t). normalizePhone tok = Some (phone r)"
proof -
  from assms have "phone r \<in> set (map phone (parseNumbers t))"
    by simp
  then have "phone r \<in> set (accepted t)"
    by (simp only: parseNumbers_phones set_first_occurrences)
  then show ?thesis
    by (simp add: accepted_def set_map_filter)
qed

text \<open>
  C1. For every input text, the phone values of the parser's result are the accepted,
  normalised values with every repetition of a value after its first occurrence removed,
  in the order of the first occurrences; no value occurs twice. The text
  \<open>+14155552671\<close>, newline, \<open>14155552671\<close> yields the single recipient \<open>14155552671\<close>.
\<close>

theorem parseNumbers_first_occurrences:
  "map phone (parseNumbers t) = first_occurrences (accepted t)
   \<and> distinct (map phone (parseNumbers t))
   \<and> set (map phone (parseNumbers t)) = set (accepted t)
   \<and> parseNumbers (js ''+14155552671\<newline>14155552671'')
       = [\<lparr>phone = js ''14155552671''\<rparr>]"
proof -
  have "parseNumbers (js ''+14155552671\<newline>14155552671'')
       = [\<lparr>phone = js ''14155552671''\<rparr>]"
    by code_simp
  then show ?thesis
    by (simp only: parseNumbers_phones distinct_first_occurrences set_first_occurrences
        simp_thms)
qed

text \<open>
  C2. For every input text, the phone value of every recipient the parser returns consists
  of ASCII digits only (so it holds no \<open>+\<close> and no separator), has between 8 and 15
  code units, and is the normalisation of one of the text's tokens. A token whose digit
  string is shorter than 8 or longer than 15 is rejected by \<open>normalizePhone\<close>, and that
  digit string is not among the result's phone values.
\<close>

theorem parseNumbers_digits_8_15:
  "(\<forall>r \<in> set (parseNumbers t).
      (\<forall>c \<in> set (phone r). is_digit c \<and> c \<noteq> plus_sign \<and> \<not> is_sep c)
      \<and> 8 \<le> length (phone r) \<and> length (phone r) \<le> 15
      \<and> (\<exists>tok \<in> set (candidates t). normalizePhone tok = Some (phone r)))
   \<and> (\<forall>tok. length (filter is_digit tok) < 8 \<or> 15 < length (filter is_digit tok)
        \<longrightarrow> normalizePhone tok = None
            \<and> filter is_digit tok \<notin> set (map phone (parseNumbers t)))"
proof (intro conjI ballI allI impI)
  fix r c
  assume r: "r \<in> set (parseNumbers t)" and c: "c \<in> set (phone r)"
  from parseNumbers_accepted [OF r] obtain tok where "normalizePhone tok = Some (phone r)"
    by blast
  then have "phone r = filter is_digit tok"
    by (rule normalizePhone_Some(1))
  with c show "is_digit c" by simp
  then show "c \<noteq> plus_sign" and "\<not> is_sep c"
    by (simp_all add: digit_not_plus digit_not_sep)
next
  fix r
  assume r: "r \<in> set (parseNumbers t)"
  from parseNumbers_accepted [OF r]
  show "\<exists>tok \<in> set (candidates t). normalizePhone tok = Some (phone r)" .
  then obtain tok where tok: "normalizePhone tok = Some (phone r)"
    by blast
  show "8 \<le> length (phone r)" and "length (phone r) \<le> 15"
    using normalizePhone_Some(2,3) [OF tok] by simp_all
next
  fix tok
  assume out: "length (filter is_digit tok) < 8 \<or> 15 < length (filter is_digit tok)"
  then show "normalizePhone tok = None"
    by (auto simp: normalizePhone_digits)
  show "filter is_digit tok \<notin> set (map phone (parseNumbers t))"
  proof
    assume "filter is_digit tok \<in> set (map phone (parseNumbers t))"
    then obtain r where r: "r \<in> set (parseNumbers t)" and p: "phone r = filter is_digit tok"
      by auto
    from parseNumbers_accepted [OF r] obtain tok' where "normalizePhone tok' = Some (phone r)"
      by blast
    from normalizePhone_Some(2,3) [OF this] p out show False
      by simp
  qed
qed

theorem parseNumbers_digits_8_15_witness:
  "parseNumbers (js ''+1 (415) 555-2671,12345;1234567890123456'') = [\<lparr>phone = js ''14155552671''\<rparr>]
   \<and> list_all is_digit (js ''14155552671'')
   \<and> 8 \<le> length (js ''14155552671'') \<and> length (js ''14155552671'') \<le> 15
   \<and> normalizePhone (js ''12345'') = None
   \<and> normalizePhone (js ''1234567890123456'') = None"
proof -
  have p: "parseNumbers (js ''+1 (415) 555-2671,12345;1234567890123456'')
      = [\<lparr>phone = js ''14155552671''\<rparr>]"
    by code_simp
  have s: "filter is_digit (js ''12345'') = js ''12345''"
    "filter is_digit (js ''1234567890123456'') = js ''1234567890123456''"
    by code_simp+
  have l: "length (js ''12345'') < 8" "15 < length (js ''1234567890123456'')"
    by (simp_all add: js_def)
  show ?thesis
    using parseNumbers_digits_8_15 [of "js ''+1 (415) 555-2671,12345;1234567890123456''"] p s l
    by (auto simp: list_all_iff)
qed

lemma dropWhile_sep_rel:
  "list_all2 (\<lambda>x y. x = y \<or> (is_sep x \<and> is_sep y)) s s' \<Longrightarrow>
   list_all2 (\<lambda>x y. x = y \<or> (is_sep x \<and> is_sep y)) (dropWhile is_sep s) (dropWhile is_sep s')"
  by (induction rule: list_all2_induct) auto

lemma js_split_sep_rel:
  "list_all2 (\<lambda>x y. x = y \<or> (is_sep x \<and> is_sep y)) s s' \<Longrightarrow> js_split s = js_split s'"
proof (induction s arbitrary: s' rule: js_split.induct)
  case 1
  then show ?case by simp
next
  case (2 c cs)
  from "2.prems" obtain c' cs' where s': "s' = c' # cs'"
    and c: "c = c' \<or> (is_sep c \<and> is_sep c')"
    and cs: "list_all2 (\<lambda>x y. x = y \<or> (is_sep x \<and> is_sep y)) cs cs'"
    by (auto simp: list_all2_Cons1)
  show ?case
  proof (cases "is_sep c")
    case True
    with c have "is_sep c'" by auto
    moreover have "js_split (dropWhile is_sep cs) = js_split (dropWhile is_sep cs')"
      using True cs by (intro "2.IH"(1) dropWhile_sep_rel)
    ultimately show ?thesis using True s' by simp
  next
    case False
    with c have "c = c'" by auto
    moreover have "js_split cs = js_split cs'"
      using False cs by (intro "2.IH"(2))
    ultimately show ?thesis using False s' by simp
  qed
qed

lemma replace_all_sep_rel:
  "is_sep a \<Longrightarrow> is_sep b \<Longrightarrow>
   list_all2 (\<lambda>x y. x = y \<or> (is_sep x \<and> is_sep y)) (replace_all a b t) t"
  by (induction t) (auto simp: replace_all_def)

lemma js_split_replace_all:
  "is_sep a \<Longrightarrow> is_sep b \<Longrightarrow> js_split (replace_all a b t) = js_split t"
  by (rule js_split_sep_rel) (rule replace_all_sep_rel)

text \<open>
  C3. For every input text and every two characters \<open>a\<close> and \<open>b\<close> among newline, comma,
  semicolon and tab, replacing the occurrences of \<open>a\<close> by \<open>b\<close> leaves the trimmed pieces
  of the split, the candidate tokens and the parser's result unchanged.
\<close>

theorem separators_interchangeable:
  assumes "is_sep a" and "is_sep b"
  shows "map js_trim (js_split (replace_all a b t)) = map js_trim (js_split t)
     \<and> candidates (replace_all a b t) = candidates t
     \<and> parseNumbers (replace_all a b t) = parseNumbers t"
  using assms by (simp add: candidates_def parseNumbers_def js_split_replace_all)

theorem separators_interchangeable_witness:
  "is_sep 0x0A \<and> is_sep 0x2C
   \<and> replace_all 0x0A 0x2C (js ''+14155552671'' @ [0x0A] @ js '' 447911123456;12'')
       = js ''+14155552671, 447911123456;12''
   \<and> candidates (js ''+14155552671, 447911123456;12'')
       = candidates (js ''+14155552671'' @ [0x0A] @ js '' 447911123456;12'')
   \<and> candidates (js ''+14155552671, 447911123456;12'')
       = [js ''+14155552671'', js ''447911123456'', js ''12'']
   \<and> parseNumbers (js ''+14155552671, 447911123456;12'')
       = parseNumbers (js ''+14155552671'' @ [0x0A] @ js '' 447911123456;12'')"
proof -
  have s: "is_sep 0x0A" "is_sep 0x2C"
    by (simp_all add: is_sep_def)
  have r: "replace_all 0x0A 0x2C (js ''+14155552671'' @ [0x0A] @ js '' 447911123456;12'')
       = js ''+14155552671, 447911123456;12''"
    by code_simp
  have c: "candidates (js ''+14155552671, 447911123456;12'')
       = [js ''+14155552671'', js ''447911123456'', js ''12'']"
    by code_simp
  show ?thesis
    using separators_interchangeable [OF s, of "js ''+14155552671'' @ [0x0A] @ js '' 447911123456;12''"]
      s r c
    by simp
qed

lemma js_split_token:
  "\<forall>c \<in> set tok. \<not> is_sep c \<Longrightarrow> is_sep s \<Longrightarrow>
   js_split (tok @ s # rest) = tok # js_split (dropWhile is_sep rest)"
  by (induction tok) auto

lemma js_split_last_token:
  "\<forall>c \<in> set tok. \<not> is_sep c \<Longrightarrow> js_split tok = [tok]"
  by (induction tok) auto

lemma js_split_join:
  assumes "\<forall>p \<in> set ps. p \<noteq> [] \<and> (\<forall>c \<in> set p. \<not> is_sep c)" and "ps \<noteq> []"
  shows "js_split (js_join [0x0A] ps) = ps"
  using assms
proof (induction ps rule: induct_list012)
  case 1
  then show ?case by simp
next
  case (2 x)
  then show ?case by (simp add: js_split_last_token)
next
  case More: (3 x y ys)
  have nl: "is_sep 0x0A" by (simp add: is_sep_def)
  from More.prems obtain d ds where y: "y = d # ds" and d: "\<not> is_sep d"
    by (cases y) auto
  have "js_join [0x0A] (y # ys) = d # tl (js_join [0x0A] (y # ys))"
    using y by (cases ys) auto
  then have "dropWhile is_sep (js_join [0x0A] (y # ys)) = js_join [0x0A] (y # ys)"
    using d by (metis dropWhile.simps(2))
  moreover have "js_split (js_join [0x0A] (y # ys)) = y # ys"
    using More.IH(2) More.prems by simp
  ultimately show ?case
    using More.prems nl by (simp add: js_split_token)
qed

lemma js_trim_digits:
  assumes "\<forall>c \<in> set p. is_digit c"
  shows "js_trim p = p"
proof -
  have d: "dropWhile is_ws q = q" if "\<forall>c \<in> set q. is_digit c" for q
    using that by (cases q) (auto dest: digit_not_ws)
  have "dropWhile is_ws (rev p) = rev p"
    using assms by (intro d) simp
  then show ?thesis using assms by (simp add: js_trim_def d)
qed

lemma candidates_join:
  assumes "\<forall>p \<in> set ps. p \<noteq> [] \<and> (\<forall>c \<in> set p. is_digit c)"
  shows "candidates (js_join [0x0A] ps) = ps"
proof (cases "ps = []")
  case True
  then show ?thesis by (simp add: candidates_def js_trim_def)
next
  case False
  have "\<forall>p \<in> set ps. p \<noteq> [] \<and> (\<forall>c \<in> set p. \<not> is_sep c)"
    using assms by (auto dest: digit_not_sep)
  then have "js_split (js_join [0x0A] ps) = ps"
    using False by (rule js_split_join)
  moreover have "map js_trim ps = ps"
    using assms by (intro map_idI js_trim_digits) auto
  moreover have "filter (\<lambda>s. s \<noteq> []) ps = ps"
    using assms by (simp add: filter_id_conv)
  ultimately show ?thesis by (simp add: candidates_def)
qed

lemma first_occurrences_distinct: "distinct xs \<Longrightarrow> first_occurrences xs = xs"
  by (induction xs) auto

lemma map_filter_id:
  "\<forall>x \<in> set xs. f x = Some x \<Longrightarrow> List.map_filter f xs = xs"
  by (induction xs) (auto simp: List.map_filter_simps)

lemma phone_inj: "map phone (xs :: recipient list) = map phone ys \<Longrightarrow> xs = ys"
proof (induction xs arbitrary: ys)
  case Nil
  then show ?case by simp
next
  case (Cons x xs)
  then show ?case by (cases ys) auto
qed

lemma parseNumbers_join:
  "parseNumbers (js_join [0x0A] (map phone (parseNumbers t))) = parseNumbers t"
proof -
  let ?ps = "map phone (parseNumbers t)"
  have valid: "\<forall>p \<in> set ?ps. (\<forall>c \<in> set p. is_digit c) \<and> 8 \<le> length p \<and> length p \<le> 15"
  proof
    fix p assume "p \<in> set ?ps"
    then obtain r where r: "r \<in> set (parseNumbers t)" and p: "p = phone r" by auto
    from parseNumbers_accepted [OF r] obtain tok where "normalizePhone tok = Some p"
      using p by blast
    from normalizePhone_Some(1-3) [OF this]
    show "(\<forall>c \<in> set p. is_digit c) \<and> 8 \<le> length p \<and> length p \<le> 15" by simp
  qed
  have dist: "distinct ?ps"
    by (simp only: parseNumbers_phones distinct_first_occurrences)
  have "candidates (js_join [0x0A] ?ps) = ?ps"
    using valid by (intro candidates_join) auto
  moreover have "List.map_filter normalizePhone ?ps = ?ps"
  proof (rule map_filter_id, rule ballI)
    fix p assume "p \<in> set ?ps"
    with valid have "filter is_digit p = p" "8 \<le> length p" "length p \<le> 15"
      by (auto simp: filter_id_conv)
    then show "normalizePhone p = Some p"
      by (simp add: normalizePhone_digits)
  qed
  ultimately have "map phone (parseNumbers (js_join [0x0A] ?ps)) = ?ps"
    using dist by (simp add: parseNumbers_phones accepted_def first_occurrences_distinct)
  then show ?thesis by (rule phone_inj)
qed

text \<open>
  C10. For every input text, joining the phone values of the parser's result with
  newlines and parsing the joined text gives the same recipient list again. So a file
  uploaded while the text area is empty leaves a text that parses to the recipients of
  the file.
\<close>

theorem parseNumbers_round_trip:
  "parseNumbers (js_join (js ''\<newline>'') (map phone (parseNumbers t))) = parseNumbers t
   \<and> parseNumbers (rawNumbers (handleFile t (st\<lparr>rawNumbers := []\<rparr>))) = parseNumbers t"
proof -
  have "js ''\<newline>'' = [0x0A]"
    by (simp add: js_def)
  then show ?thesis
    by (simp add: handleFile_def parseNumbers_join)
qed

section \<open>Properties of the chat link\<close>

lemma unescaped_lt_128: "is_unescaped c \<Longrightarrow> unat c < 0x80"
  unfolding is_unescaped_def word_le_nat_alt by auto

lemma unescaped_not_surrogate:
  "is_unescaped c \<Longrightarrow> \<not> is_leading_surrogate c \<and> \<not> is_trailing_surrogate c"
  unfolding is_unescaped_def is_leading_surrogate_def is_trailing_surrogate_def word_le_nat_alt
  by auto

lemma leading_not_trailing: "is_leading_surrogate c \<Longrightarrow> \<not> is_trailing_surrogate c"
  unfolding is_leading_surrogate_def is_trailing_surrogate_def word_le_nat_alt
  by auto

lemma surrogate_pair_ge: "0x10000 \<le> surrogate_pair_cp c d"
  by (simp add: surrogate_pair_cp_def)

lemma percent_encode_Cons:
  "percent_encode (cp # cps) =
     (if cp < 0x80 \<and> is_unescaped (of_nat cp) then [of_nat cp] else percent_code_point cp)
     @ percent_encode cps"
  by (simp add: percent_encode_def)

lemma percent_encode_Nil: "percent_encode [] = []"
  by (simp add: percent_encode_def)

lemma percent_encode_unit:
  "percent_encode (unat c # cps) =
     (if is_unescaped c then [c] else percent_code_point (unat c)) @ percent_encode cps"
  using unescaped_lt_128 [of c] by (auto simp: percent_encode_Cons)

lemma percent_encode_pair:
  "percent_encode (surrogate_pair_cp c d # cps) =
     percent_code_point (surrogate_pair_cp c d) @ percent_encode cps"
  using surrogate_pair_ge [of c d] by (simp add: percent_encode_Cons)

lemma encode_plain:
  "\<not> is_leading_surrogate c \<Longrightarrow> \<not> is_trailing_surrogate c \<Longrightarrow>
   encodeURIComponent (c # cs) =
     (case encodeURIComponent cs of
        Inl e \<Rightarrow> Inl e
      | Inr r \<Rightarrow> Inr ((if is_unescaped c then [c] else percent_code_point (unat c)) @ r))"
  by (simp split: sum.splits)

lemma encode_pair:
  "is_leading_surrogate c \<Longrightarrow> is_trailing_surrogate d \<Longrightarrow>
   encodeURIComponent (c # d # ds) =
     (case encodeURIComponent ds of
        Inl e \<Rightarrow> Inl e
      | Inr r \<Rightarrow> Inr (percent_code_point (surrogate_pair_cp c d) @ r))"
  using unescaped_not_surrogate [of c] leading_not_trailing [of c] by auto

lemma encode_trailing: "is_trailing_surrogate c \<Longrightarrow> encodeURIComponent (c # cs) = Inl URIError"
  using unescaped_not_surrogate [of c] by auto

lemma encode_leading_alone:
  "is_leading_surrogate c \<Longrightarrow> encodeURIComponent [c] = Inl URIError"
  using unescaped_not_surrogate [of c] by auto

lemma encode_leading_unpaired:
  "is_leading_surrogate c \<Longrightarrow> \<not> is_trailing_surrogate d \<Longrightarrow>
   encodeURIComponent (c # d # ds) = Inl URIError"
  using unescaped_not_surrogate [of c] by auto

lemma well_formed_plain:
  "\<not> is_leading_surrogate c \<Longrightarrow>
   well_formed (c # cs) = (\<not> is_trailing_surrogate c \<and> well_formed cs)"
  by (cases cs) auto

lemma code_points_plain:
  "\<not> is_leading_surrogate c \<Longrightarrow> code_points (c # cs) = unat c # code_points cs"
  by (cases cs) auto

lemma encodeURIComponent_well_formed:
  "well_formed m \<Longrightarrow> encodeURIComponent m = Inr (percent_encode (code_points m))"
proof (induction m rule: well_formed.induct)
  case 1
  then show ?case by (simp add: percent_encode_Nil)
next
  case (2 c)
  then show ?case
    by (simp add: percent_encode_unit percent_encode_Nil)
next
  case (3 c d ds)
  show ?case
  proof (cases "is_leading_surrogate c")
    case True
    with "3.prems" have d: "is_trailing_surrogate d" and ds: "well_formed ds"
      by simp_all
    have "encodeURIComponent ds = Inr (percent_encode (code_points ds))"
      using "3.IH"(1) [OF True ds] .
    then show ?thesis
      using True d by (simp add: encode_pair percent_encode_pair del: encodeURIComponent.simps)
  next
    case False
    with "3.prems" have c: "\<not> is_trailing_surrogate c" and rest: "well_formed (d # ds)"
      by simp_all
    have "encodeURIComponent (d # ds) = Inr (percent_encode (code_points (d # ds)))"
      using "3.IH"(2) [OF False rest] .
    then show ?thesis
      using False c
      by (simp add: encode_plain code_points_plain percent_encode_unit
          del: encodeURIComponent.simps code_points.simps)
  qed
qed

lemma encodeURIComponent_malformed:
  "\<not> well_formed m \<Longrightarrow> encodeURIComponent m = Inl URIError"
proof (induction m rule: well_formed.induct)
  case 1
  then show ?case by simp
next
  case (2 c)
  then show ?case
    using encode_trailing [of c "[]"] encode_leading_alone [of c] by auto
next
  case (3 c d ds)
  show ?case
  proof (cases "is_leading_surrogate c")
    case True
    show ?thesis
    proof (cases "is_trailing_surrogate d")
      case d: True
      with True "3.prems" have "\<not> well_formed ds" by simp
      then have "encodeURIComponent ds = Inl URIError"
        using "3.IH"(1) [OF True] by simp
      then show ?thesis
        using True d by (simp add: encode_pair del: encodeURIComponent.simps)
    next
      case False
      with True show ?thesis by (rule encode_leading_unpaired)
    qed
  next
    case False
    show ?thesis
    proof (cases "is_trailing_surrogate c")
      case True
      then show ?thesis by (rule encode_trailing)
    next
      case c: False
      with False "3.prems" have "\<not> well_formed (d # ds)" by simp
      then have "encodeURIComponent (d # ds) = Inl URIError"
        using "3.IH"(2) [OF False] by simp
      then show ?thesis
        using False c by (simp add: encode_plain del: encodeURIComponent.simps)
    qed
  qed
qed

lemma hex_digit_unescaped: "n < 16 \<Longrightarrow> is_unescaped (hex_digit n)"
proof -
  have "list_all (\<lambda>n. is_unescaped (hex_digit n)) [0..<16]"
    by code_simp
  then show "n < 16 \<Longrightarrow> is_unescaped (hex_digit n)"
    by (simp add: list_all_iff)
qed

lemma percent_octet_chars:
  "b < 256 \<Longrightarrow> c \<in> set (percent_octet b) \<Longrightarrow> is_unescaped c \<or> c = 0x25"
  by (auto simp: percent_octet_def intro!: hex_digit_unescaped) 

lemma utf8_octets_lt_256: "cp < 0x110000 \<Longrightarrow> b \<in> set (utf8_octets cp) \<Longrightarrow> b < 256"
  by (auto simp: utf8_octets_def split: if_splits)

lemma percent_code_point_chars:
  "cp < 0x110000 \<Longrightarrow> c \<in> set (percent_code_point cp) \<Longrightarrow> is_unescaped c \<or> c = 0x25"
  by (auto simp: percent_code_point_def dest: utf8_octets_lt_256 percent_octet_chars)

lemma surrogate_pair_lt:
  "is_leading_surrogate c \<Longrightarrow> is_trailing_surrogate d \<Longrightarrow> surrogate_pair_cp c d < 0x110000"
  unfolding is_leading_surrogate_def is_trailing_surrogate_def word_le_nat_alt surrogate_pair_cp_def
  by simp arith

lemma code_points_lt: "cp \<in> set (code_points m) \<Longrightarrow> cp < 0x110000"
proof (induction m rule: code_points.induct)
  case 1
  then show ?case by simp
next
  case (2 c)
  have "unat c < 2 ^ 16" using unsigned_less [of c] by simp
  with 2 show ?case by simp
next
  case (3 c d ds)
  have "unat c < 2 ^ 16" using unsigned_less [of c] by simp
  with 3 show ?case
    by (auto simp: surrogate_pair_lt split: if_splits)
qed

lemma percent_encode_chars:
  "\<forall>cp \<in> set cps. cp < 0x110000 \<Longrightarrow> c \<in> set (percent_encode cps) \<Longrightarrow>
   is_unescaped c \<or> c = 0x25"
  by (induction cps) (auto simp: percent_encode_Nil percent_encode_Cons
      dest: percent_code_point_chars split: if_splits)

lemma makeWhatsAppLink_well_formed:
  "well_formed m \<Longrightarrow> makeWhatsAppLink p m = Inr (chat_link p m)"
  by (simp add: makeWhatsAppLink_def chat_link_def encodeURIComponent_well_formed)

lemma makeWhatsAppLink_malformed:
  "\<not> well_formed m \<Longrightarrow> makeWhatsAppLink p m = Inl URIError"
  by (simp add: makeWhatsAppLink_def encodeURIComponent_malformed)

text \<open>
  C4, as the code has it. For every phone string and every message without an unpaired
  surrogate, the link is \<open>https://wa.me/\<close>, the phone, \<open>?text=\<close> and the message
  percent-encoded: every code point outside \<open>A-Z a-z 0-9 - _ . ! ~ * ' ( )\<close> becomes the
  \<open>%XX\<close> of the octets of its UTF-8 encoding, so the encoded message holds unreserved
  characters and \<open>%\<close> only. For a message with an unpaired surrogate no link is made:
  URIError is thrown. For the phone \<open>14155552671\<close> and the message \<open>Hi there!\<close> the link
  is \<open>https://wa.me/14155552671?text=Hi%20there!\<close>.
\<close>

theorem makeWhatsAppLink_template:
  "(well_formed m \<longrightarrow>
      makeWhatsAppLink p m
        = Inr (js ''https://wa.me/'' @ p @ js ''?text='' @ percent_encode (code_points m))
      \<and> (\<forall>c \<in> set (percent_encode (code_points m)). is_unescaped c \<or> c = 0x25))
   \<and> (\<not> well_formed m \<longrightarrow> makeWhatsAppLink p m = Inl URIError)
   \<and> makeWhatsAppLink (js ''14155552671'') (js ''Hi there!'')
       = Inr (js ''https://wa.me/14155552671?text=Hi%20there!'')"
proof (intro conjI impI ballI)
  assume "well_formed m"
  then show "makeWhatsAppLink p m
      = Inr (js ''https://wa.me/'' @ p @ js ''?text='' @ percent_encode (code_points m))"
    by (simp add: makeWhatsAppLink_well_formed chat_link_def)
next
  fix c
  assume "c \<in> set (percent_encode (code_points m))"
  then show "is_unescaped c \<or> c = 0x25"
    using code_points_lt by (intro percent_encode_chars [of "code_points m"]) blast+
next
  assume "\<not> well_formed m"
  then show "makeWhatsAppLink p m = Inl URIError"
    by (rule makeWhatsAppLink_malformed)
next
  show "makeWhatsAppLink (js ''14155552671'') (js ''Hi there!'')
      = Inr (js ''https://wa.me/14155552671?text=Hi%20there!'')"
    by code_simp
qed

theorem makeWhatsAppLink_template_witness:
  "well_formed (js ''Hi there!'')
   \<and> makeWhatsAppLink (js ''14155552671'') (js ''Hi there!'')
       = Inr (js ''https://wa.me/'' @ js ''14155552671'' @ js ''?text=''
              @ percent_encode (code_points (js ''Hi there!'')))
   \<and> percent_encode (code_points (js ''Hi there!'')) = js ''Hi%20there!''
   \<and> list_all (\<lambda>c. is_unescaped c \<or> c = 0x25) (js ''Hi%20there!'')
   \<and> \<not> well_formed [0xDE00, 0xD83D]
   \<and> makeWhatsAppLink (js ''14155552671'') [0xDE00, 0xD83D] = Inl URIError"
proof -
  have w: "well_formed (js ''Hi there!'')" "\<not> well_formed [0xDE00, 0xD83D]"
    by code_simp+
  have e: "percent_encode (code_points (js ''Hi there!'')) = js ''Hi%20there!''"
    by code_simp
  show ?thesis
    using makeWhatsAppLink_template [of "js ''Hi there!''" "js ''14155552671''"]
      makeWhatsAppLink_template [of "[0xDE00, 0xD83D]" "js ''14155552671''"] w e
    by (simp add: list_all_iff)
qed

text \<open>
  C4 as stated fails: for a message that is an unpaired surrogate, \<open>encodeURIComponent\<close>
  throws and no link is returned.
\<close>

theorem makeWhatsAppLink_unpaired_surrogate:
  "makeWhatsAppLink (js ''14155552671'') [0xD800] = Inl URIError"
  by code_simp

section \<open>Properties of the dispatcher\<close>

subsection \<open>Numbers\<close>

text \<open>
  Integers below \<open>2\<^sup>5\<^sup>3\<close> are doubles and add exactly; rounding a number never takes it
  below an integer of that range that is below the number. \<open>slice\<close> on integer bounds is
  \<open>take\<close> and \<open>drop\<close>.
\<close>

lemma round_even_int: "round_even (of_int z) = z"
  by (simp add: round_even_def)

lemma pow2_nonpos: "c \<le> 0 \<Longrightarrow> pow2 c = 1 / 2 ^ nat (- c)"
  by (cases "c = 0") (simp_all add: pow2_def)

lemma binade_int_le:
  assumes "0 < k" and "k < 2 ^ 53"
  shows "binade (of_int k) \<le> 52"
proof -
  have "bitlen k \<le> 53"
    using assms(2) by (simp add: bitlen_le_iff_power)
  moreover have "bitlen 1 = 1"
    by (subst compute_bitlen) simp
  ultimately show ?thesis
    by (simp add: binade_def Let_def)
qed

lemma to_double_int:
  assumes "\<bar>k\<bar> < 2 ^ 53"
  shows "to_double (of_int k) = of_int k"
proof (cases "k = 0")
  case True
  then show ?thesis by (simp add: to_double_def)
next
  case False
  let ?c = "binade \<bar>of_int k\<bar> - 52"
  have "binade \<bar>of_int k :: rat\<bar> = binade (of_int \<bar>k\<bar>)"
    by simp
  also have "\<dots> \<le> 52"
    using False assms by (intro binade_int_le) simp_all
  finally have c: "?c \<le> 0" by simp
  let ?j = "nat (- ?c)"
  have u: "pow2 ?c = 1 / 2 ^ ?j"
    using c by (rule pow2_nonpos)
  have "of_int k / pow2 ?c = (of_int (k * 2 ^ ?j) :: rat)"
    by (simp add: u)
  then have "round_even (of_int k / pow2 ?c) = k * 2 ^ ?j"
    by (simp only: round_even_int)
  then have "of_int (round_even (of_int k / pow2 ?c)) * pow2 ?c = (of_int k :: rat)"
    by (simp add: u)
  with False show ?thesis
    by (simp add: to_double_def Let_def)
qed

lemma to_double_nat: "n < 2 ^ 53 \<Longrightarrow> to_double (of_nat n) = of_nat n"
  using to_double_int [of "int n"] by simp

lemma js_add_nat: "i + b < 2 ^ 53 \<Longrightarrow> js_add (of_nat i) (of_nat b) = of_nat (i + b)"
  using to_double_nat [of "i + b"] by (simp add: js_add_def)

lemma js_add_zero: "is_double b \<Longrightarrow> js_add 0 b = b"
  by (simp add: js_add_def is_double_def)

lemma is_double_int: "\<bar>k\<bar> < 2 ^ 53 \<Longrightarrow> is_double (of_int k)"
  by (simp add: is_double_def to_double_int)

lemma to_integer_nat: "to_integer (of_nat n) = int n"
  by (simp add: to_integer_def)

lemma to_integer_ge: "of_nat n \<le> x \<Longrightarrow> int n \<le> to_integer x"
proof -
  assume a: "of_nat n \<le> x"
  then have "0 \<le> x"
    by (meson of_nat_0_le_iff order_trans)
  moreover have "int n \<le> \<lfloor>x\<rfloor>"
    using a by (simp add: le_floor_iff)
  ultimately show ?thesis by (simp add: to_integer_def)
qed

lemma js_slice_nat: "js_slice xs (of_nat i) (of_nat (i + b)) = take b (drop i xs)"
proof (cases "i < length xs")
  case True
  then have "take (nat (min (int i + int b) (int (length xs)) - int i)) (drop i xs)
      = take b (drop i xs)"
    by (cases "i + b \<le> length xs") (simp_all add: min_def)
  with True show ?thesis
    unfolding js_slice_def to_integer_nat by (simp add: Let_def min_def)
next
  case False
  then show ?thesis
    unfolding js_slice_def to_integer_nat by (simp add: Let_def min_def)
qed

lemma js_slice_copy: "js_slice xs 0 (of_nat (length xs)) = xs"
  using js_slice_nat [of xs 0 "length xs"] by simp

lemma js_slice_all: "of_nat (length xs) \<le> x \<Longrightarrow> js_slice xs 0 x = xs"
proof -
  assume "of_nat (length xs) \<le> x"
  then have "int (length xs) \<le> to_integer x"
    by (rule to_integer_ge)
  moreover have "to_integer 0 = 0"
    by (simp add: to_integer_def)
  ultimately show ?thesis
    by (simp add: js_slice_def Let_def min_def)
qed

lemma js_slice_empty: "js_slice xs 0 0 = []"
  by (simp add: js_slice_def to_integer_def)

lemma js_add_zero_zero: "js_add 0 0 = 0"
  by (simp add: js_add_def to_double_def)

lemma pow2_pos: "0 < pow2 e"
  by (simp add: pow2_def)

lemma pow2_diff:
  assumes "0 \<le> a" and "0 \<le> b"
  shows "pow2 (a - b) = 2 ^ nat a / 2 ^ nat b"
proof (cases "b \<le> a")
  case True
  then have "nat (a - b) = nat a - nat b" and "nat b \<le> nat a"
    using assms by simp_all
  then show ?thesis
    using True by (simp add: pow2_def power_diff)
next
  case False
  then have n: "nat (b - a) = nat b - nat a" and le: "nat a \<le> nat b"
    using assms by simp_all
  have "(2::rat) ^ nat b = 2 ^ nat a * 2 ^ (nat b - nat a)"
    using le by (simp flip: power_add)
  then show ?thesis
    using False n by (simp add: pow2_def)
qed

lemma round_even_ge: "of_int m \<le> q \<Longrightarrow> m \<le> round_even q"
proof -
  assume "of_int m \<le> q"
  then have "m \<le> \<lfloor>q\<rfloor>"
    by (simp add: le_floor_iff)
  then show ?thesis
    by (simp add: round_even_def Let_def)
qed

lemma binade_lower:
  assumes "0 < x"
  shows "pow2 (binade x) \<le> x"
proof -
  obtain p q where pq: "quotient_of x = (p, q)"
    by (cases "quotient_of x")
  then have q: "0 < q" and x: "x = of_int p / of_int q"
    by (simp_all add: quotient_of_denom_pos quotient_of_div)
  with assms have p: "0 < p"
    by (simp add: zero_less_divide_iff)
  let ?e = "bitlen p - bitlen q"
  show ?thesis
  proof (cases "pow2 ?e \<le> x")
    case True
    then show ?thesis by (simp add: binade_def pq)
  next
    case False
    have bp: "1 \<le> bitlen p" and bq: "0 \<le> bitlen q"
      using p bitlen_nonneg [of q] bitlen_eq_zero_iff [of p] bitlen_nonneg [of p] by auto
    from bitlen_bounds [OF p] have "2 ^ nat (bitlen p - 1) \<le> p" ..
    then have lo: "(2::rat) ^ nat (bitlen p - 1) \<le> of_int p"
      by (metis of_int_le_iff of_int_numeral of_int_power)
    from bitlen_bounds [OF q] have "q < 2 ^ nat (bitlen q)" ..
    then have hi: "of_int q \<le> (2::rat) ^ nat (bitlen q)"
      by (metis less_imp_le of_int_le_iff of_int_numeral of_int_power)
    have "pow2 (?e - 1) = pow2 ((bitlen p - 1) - bitlen q)"
      by (simp add: algebra_simps)
    also have "\<dots> = 2 ^ nat (bitlen p - 1) / 2 ^ nat (bitlen q)"
      using bp bq by (intro pow2_diff) simp_all
    also have "\<dots> \<le> of_int p / of_int q"
      using lo hi q p by (intro frac_le) simp_all
    finally have "pow2 (?e - 1) \<le> x"
      by (simp only: x)
    with False show ?thesis by (simp add: binade_def pq)
  qed
qed

lemma to_double_ge_int:
  assumes "0 \<le> z" and "z < 2 ^ 53" and "of_int z \<le> y"
  shows "of_int z \<le> to_double y"
proof (cases "y = 0")
  case True
  with assms show ?thesis by (simp add: to_double_def)
next
  case False
  with assms have y: "0 < y"
    by (metis of_int_0_le_iff order_trans less_le)
  let ?e = "binade \<bar>y\<bar>"
  let ?u = "pow2 (?e - 52)"
  have td: "to_double y = of_int (round_even (y / ?u)) * ?u"
    using False by (simp add: to_double_def Let_def)
  have u: "0 < ?u" by (rule pow2_pos)
  show ?thesis
  proof (cases "?e \<le> 52")
    case True
    let ?j = "nat (52 - ?e)"
    have uu: "?u = 1 / 2 ^ ?j"
      using True pow2_nonpos [of "?e - 52"] by simp
    have "(of_int (z * 2 ^ ?j) :: rat) \<le> y / ?u"
      using assms(3) by (simp add: uu)
    then have "z * 2 ^ ?j \<le> round_even (y / ?u)"
      by (rule round_even_ge)
    then have "(of_int (z * 2 ^ ?j) :: rat) \<le> of_int (round_even (y / ?u))"
      by (simp only: of_int_le_iff)
    then have "(of_int (z * 2 ^ ?j) :: rat) * ?u \<le> of_int (round_even (y / ?u)) * ?u"
      using u by (simp only: mult_le_cancel_right_pos)
    then show ?thesis
      by (simp add: td uu)
  next
    case False
    then have e: "53 \<le> ?e" by simp
    let ?c = "nat (?e - 52)"
    have uu: "?u = 2 ^ ?c" and c: "1 \<le> ?c" and ee: "nat ?e = 52 + ?c"
      using e by (simp_all add: pow2_def)
    have "pow2 ?e \<le> y"
      using binade_lower [of "\<bar>y\<bar>"] y by simp
    then have "(2::rat) ^ (52 + ?c) \<le> y"
      using e ee by (simp add: pow2_def)
    then have "(of_int (2 ^ 52) :: rat) \<le> y / ?u"
      using u by (simp add: uu power_add le_divide_eq)
    then have "2 ^ 52 \<le> round_even (y / ?u)"
      by (rule round_even_ge)
    then have "(2 ^ 52 :: rat) \<le> of_int (round_even (y / ?u))"
      by (metis of_int_le_iff of_int_numeral of_int_power)
    moreover have "(2::rat) \<le> ?u"
      using c uu by (metis one_le_numeral power_increasing power_one_right)
    ultimately have big: "(2 ^ 52 :: rat) * 2 \<le> of_int (round_even (y / ?u)) * ?u"
      by (intro mult_mono) simp_all
    have "z \<le> 2 ^ 52 * 2"
      using assms(2) by simp
    then have "(of_int z :: rat) \<le> 2 ^ 52 * 2"
      by (metis of_int_le_iff of_int_mult of_int_numeral of_int_power)
    from this big have "(of_int z :: rat) \<le> of_int (round_even (y / ?u)) * ?u"
      by (rule order_trans)
    then show ?thesis
      by (simp only: td)
  qed
qed

subsection \<open>The runs of \<open>openNextBatch\<close>\<close>

lemma open_batch_well_formed:
  "well_formed msg \<Longrightarrow>
   open_batch msg rs = (map (\<lambda>r. WindowOpen (chat_link (phone r) msg)) rs, None)"
  by (induction rs) (simp_all add: makeWhatsAppLink_well_formed)

lemma opened_WindowOpen: "opened (map WindowOpen us @ evs) = us @ opened evs"
  by (induction us) simp_all

lemma opened_links:
  "opened (map (\<lambda>r. WindowOpen (f r)) rs) = map f rs"
  by (induction rs) simp_all

lemma opened_links_timeout:
  "opened (map (\<lambda>r. WindowOpen (f r)) rs @ [SetTimeout d]) = map f rs"
  by (induction rs) simp_all

lemma div_add_self_Suc: "0 < b \<Longrightarrow> (b + m) div b = Suc (m div b)" for b m :: nat
  by (simp add: div_add_self1)

lemma ceil_div_Suc: "0 < b \<Longrightarrow> 0 < n \<Longrightarrow> ceil_div n b = Suc ((n - 1) div b)"
proof -
  assume b: "0 < b" and n: "0 < n"
  then have "n + b - 1 = b + (n - 1)" by simp
  then have "ceil_div n b = (b + (n - 1)) div b"
    by (simp only: ceil_div_def)
  also have "\<dots> = Suc ((n - 1) div b)"
    using b by (rule div_add_self_Suc)
  finally show ?thesis .
qed

lemma ceil_div_0: "ceil_div 0 b = 0"
  by (cases b) (simp_all add: ceil_div_def)

lemma ceil_div_le: "0 < b \<Longrightarrow> n \<le> b \<Longrightarrow> 0 < n \<Longrightarrow> ceil_div n b = 1"
  by (simp add: ceil_div_Suc)

lemma ceil_div_step: 
  assumes "0 < b" and "b < n" 
  shows "ceil_div n b = Suc (ceil_div (n - b) b)"
proof -
  have "n - 1 = b + (n - b - 1)" using assms by simp
  then have "(n - 1) div b = Suc ((n - b - 1) div b)"
    using assms(1) by (simp only: div_add_self_Suc)
  then show ?thesis
    using assms by (simp add: ceil_div_Suc)
qed


lemma chunks_simps':
  "chunks b [] = []"
  "0 < b \<Longrightarrow> xs \<noteq> [] \<Longrightarrow> chunks b xs = take b xs # chunks b (drop b xs)"
  by simp_all

declare chunks.simps [simp del]

lemma chunks_short: "0 < b \<Longrightarrow> xs \<noteq> [] \<Longrightarrow> length xs \<le> b \<Longrightarrow> chunks b xs = [xs]"
  by (simp add: chunks_simps')


lemma openNextBatch_well_formed:
  assumes "well_formed msg" and "0 < b" and "length rs + b < 2 ^ 53"
  shows "i < length rs \<Longrightarrow> ceil_div (length rs - i) b \<le> k \<Longrightarrow>
     \<exists>runs. openNextBatch k rs msg (of_nat b) d (of_nat i) = Some (runs, None)
       \<and> map opened runs = chunks b (map (\<lambda>r. chat_link (phone r) msg) (drop i rs))"
proof (induction k arbitrary: i)
  case 0
  then show ?case using assms(2) by (simp add: ceil_div_Suc)
next
  case (Suc k)
  let ?f = "\<lambda>r. chat_link (phone r) msg"
  let ?batch = "take b (drop i rs)"
  have next_index: "js_add (of_nat i) (of_nat b) = of_nat (i + b)"
    using Suc.prems(1) assms(3) by (intro js_add_nat) simp
  have batch: "open_batch msg (js_slice rs (of_nat i) (of_nat (i + b)))
      = (map (\<lambda>r. WindowOpen (?f r)) ?batch, None)"
    using assms(1) by (simp only: js_slice_nat open_batch_well_formed)
  show ?case
  proof (cases "i + b < length rs")
    case True
    then have "ceil_div (length rs - i) b = Suc (ceil_div (length rs - (i + b)) b)"
      using assms(2) ceil_div_step [of b "length rs - i"] by simp
    with Suc.prems have "ceil_div (length rs - (i + b)) b \<le> k" by simp
    from Suc.IH [OF True this] obtain later where
      later: "openNextBatch k rs msg (of_nat b) d (of_nat (i + b)) = Some (later, None)"
      and opened: "map opened later = chunks b (map ?f (drop (i + b) rs))"
      by blast
    have "chunks b (map ?f (drop i rs))
        = map ?f ?batch # chunks b (map ?f (drop (i + b) rs))"
      using True assms(2) by (simp add: chunks_simps' take_map drop_map add.commute)
    then show ?thesis
      using True batch later opened
      by (simp add: next_index opened_links_timeout Let_def del: of_nat_add)
  next
    case False
    then have "chunks b (map ?f (drop i rs)) = [map ?f ?batch]"
      using Suc.prems(1) assms(2) by (simp add: chunks_short)
    then show ?thesis
      using False batch by (simp add: next_index opened_links Let_def del: of_nat_add)
  qed
qed

lemma openNextBatch_too_few:
  assumes "well_formed msg" and "0 < b" and "length rs + b < 2 ^ 53"
  shows "i < length rs \<Longrightarrow> k < ceil_div (length rs - i) b \<Longrightarrow>
     openNextBatch k rs msg (of_nat b) d (of_nat i) = None"
proof (induction k arbitrary: i)
  case 0
  then show ?case by simp
next
  case (Suc k)
  have next_index: "js_add (of_nat i) (of_nat b) = of_nat (i + b)"
    using Suc.prems(1) assms(3) by (intro js_add_nat) simp
  have batch: "open_batch msg (js_slice rs (of_nat i) (of_nat (i + b)))
      = (map (\<lambda>r. WindowOpen (chat_link (phone r) msg)) (take b (drop i rs)), None)"
    using assms(1) by (simp only: js_slice_nat open_batch_well_formed)
  show ?case
  proof (cases "i + b < length rs")
    case True
    then have "ceil_div (length rs - i) b = Suc (ceil_div (length rs - (i + b)) b)"
      using assms(2) ceil_div_step [of b "length rs - i"] by simp
    with Suc.prems have "k < ceil_div (length rs - (i + b)) b" by simp
    from Suc.IH [OF True this] show ?thesis
      using True batch by (simp add: next_index Let_def del: of_nat_add)
  next
    case False
    then have "ceil_div (length rs - i) b = 1"
      using Suc.prems(1) assms(2) by (intro ceil_div_le) simp_all
    with Suc.prems show ?thesis by simp
  qed
qed

lemma openNextBatch_zero:
  "rs \<noteq> [] \<Longrightarrow> openNextBatch k rs msg 0 d 0 = None"
  by (induction k) (simp_all add: js_add_zero_zero js_slice_empty Let_def)

lemma openNextBatch_single:
  assumes "well_formed msg" and "is_double b" and "of_nat (length rs) \<le> b"
  shows "openNextBatch (Suc k) rs msg b d 0
    = Some ([map (\<lambda>r. WindowOpen (chat_link (phone r) msg)) rs], None)"
proof -
  have "js_add 0 b = b"
    using assms(2) by (rule js_add_zero)
  moreover have "js_slice rs 0 b = rs"
    using assms(3) by (rule js_slice_all)
  ultimately show ?thesis
    using assms(1,3) by (simp add: open_batch_well_formed Let_def)
qed

lemma concat_chunks: "0 < b \<Longrightarrow> concat (chunks b xs) = xs"
proof (induction b xs rule: chunks.induct)
  case (1 b xs)
  then show ?case by (cases "xs = []") (simp_all add: chunks_simps')
qed

lemma length_chunks: "0 < b \<Longrightarrow> length (chunks b xs) = ceil_div (length xs) b"
proof (induction b xs rule: chunks.induct)
  case (1 b xs)
  show ?case
  proof (cases "xs = []")
    case True
    then show ?thesis by (simp add: chunks_simps' ceil_div_0)
  next
    case False
    show ?thesis
    proof (cases "b < length xs")
      case True
      then show ?thesis
        using 1 False by (simp add: chunks_simps' ceil_div_step)
    next
      case le: False
      then show ?thesis
        using 1 False by (simp add: chunks_short ceil_div_le)
    qed
  qed
qed

lemma chunks_sizes:
  "0 < b \<Longrightarrow> g \<in> set (butlast (chunks b xs)) \<Longrightarrow> length g = b"
proof (induction b xs rule: chunks.induct)
  case (1 b xs)
  show ?case
  proof (cases "xs = []")
    case True
    with 1 show ?thesis by (simp add: chunks_simps')
  next
    case False
    show ?thesis
    proof (cases "b < length xs")
      case True
      then have "chunks b (drop b xs) \<noteq> []"
        using "1.prems"(1) by (simp add: chunks_simps')
      then show ?thesis
        using 1 False True by (auto simp: chunks_simps')
    next
      case le: False
      then show ?thesis
        using 1 False by (simp add: chunks_short)
    qed
  qed
qed

lemma chunks_last:
  "0 < b \<Longrightarrow> xs \<noteq> [] \<Longrightarrow>
   last (chunks b xs) \<noteq> [] \<and> length (last (chunks b xs)) \<le> b"
proof (induction b xs rule: chunks.induct)
  case (1 b xs)
  show ?case
  proof (cases "b < length xs")
    case True
    then have "chunks b (drop b xs) \<noteq> []"
      using "1.prems"(1) by (simp add: chunks_simps')
    then show ?thesis
      using 1 True by (simp add: chunks_simps')
  next
    case le: False
    then show ?thesis
      using 1 by (simp add: chunks_short)
  qed
qed



lemma openNextBatch_mono:
  "openNextBatch k rs msg b d i = Some x \<Longrightarrow> k \<le> k' \<Longrightarrow>
   openNextBatch k' rs msg b d i = Some x"
proof (induction k arbitrary: k' i x)
  case 0
  then show ?case by simp
next
  case (Suc k)
  from Suc.prems(2) obtain j where k': "k' = Suc j" and j: "k \<le> j"
    by (cases k') auto
  show ?case
  proof (cases "open_batch msg (js_slice rs i (js_add i b))")
    case (Pair evs err)
    show ?thesis
    proof (cases err)
      case (Some e)
      with Pair Suc.prems(1) k' show ?thesis by (simp add: Let_def)
    next
      case None
      show ?thesis
      proof (cases "js_add i b < of_nat (length rs)")
        case True
        with Pair None Suc.prems(1) obtain y where
          y: "openNextBatch k rs msg b d (js_add i b) = Some y"
          by (auto simp: Let_def split: option.splits)
        from Suc.IH [OF y j] y Pair None True Suc.prems(1) k' show ?thesis
          by (simp add: Let_def)
      next
        case False
        with Pair None Suc.prems(1) k' show ?thesis by (simp add: Let_def)
      qed
    qed
  qed
qed

lemma opened_SetSending: "opened ([SetSending a] @ evs @ [SetSending b]) = opened evs"
  by (induction evs rule: opened.induct) simp_all

lemma preview_well_formed:
  "well_formed msg \<Longrightarrow> preview msg rs = Inr (map (\<lambda>r. chat_link (phone r) msg) rs)"
  by (induction rs) (simp_all add: makeWhatsAppLink_well_formed)

lemma preview_malformed:
  "\<not> well_formed msg \<Longrightarrow> rs \<noteq> [] \<Longrightarrow> preview msg rs = Inl URIError"
  by (cases rs) (simp_all add: makeWhatsAppLink_malformed)

lemma js_slice_100: "js_slice xs 0 100 = take 100 xs"
  using js_slice_nat [of xs 0 100] by simp

lemma render_well_formed:
  assumes "render st = Inr view" and "parseNumbers (rawNumbers st) \<noteq> []"
  shows "well_formed (message st)"
proof (rule ccontr)
  assume "\<not> well_formed (message st)"
  moreover have "take 100 (parseNumbers (rawNumbers st)) \<noteq> []"
    using assms(2) by simp
  ultimately have "render st = Inl URIError"
    unfolding render_def js_slice_100 by (rule preview_malformed)
  with assms(1) show False by simp
qed

lemma render_links:
  "well_formed (message st) \<Longrightarrow>
   render st = Inr (map (\<lambda>r. chat_link (phone r) (message st))
                     (take 100 (parseNumbers (rawNumbers st))))"
  unfolding render_def js_slice_100 by (rule preview_well_formed)

lemma Page_openLinks_rendered:
  assumes "render st = Inr view" and "\<not> sending st"
  shows "Page_openLinks fuel server st = openLinks fuel server st (parseNumbers (rawNumbers st))"
  using assms by (simp add: Page_openLinks_def openLinks_def)


lemma openLinks_integer_batches:
  assumes "well_formed (message st)" and "message st \<noteq> []" and "\<not> useApi st"
    and "batchSize st = of_nat b" and "0 < b" and "is_double (batchSize st)"
    and "length rs < 2 ^ 32"
  shows "\<exists>r. (\<forall>fuel \<ge> ceil_div (length rs) b. openLinks fuel server st rs = Some r)
      \<and> raised r = None
      \<and> map opened (ticks r) = chunks b (map (\<lambda>x. chat_link (phone x) (message st)) rs)"
proof (cases "rs = []")
  case True
  let ?r = "\<lparr>final = st, ticks = [], raised = None\<rparr>"
  have "\<forall>fuel. openLinks fuel server st rs = Some ?r"
    using True by (simp add: openLinks_def)
  moreover have "map opened (ticks ?r) = chunks b (map (\<lambda>x. chat_link (phone x) (message st)) rs)"
    using True by (simp add: chunks_simps')
  ultimately show ?thesis
    by (intro exI [of _ ?r]) simp
next
  case False
  let ?n = "ceil_div (length rs) b"
  let ?f = "\<lambda>x. chat_link (phone x) (message st)"
  let ?links = "map ?f rs"
  have "\<exists>runs. (\<forall>fuel \<ge> ?n. openNextBatch fuel rs (message st) (of_nat b) (delayMs st) 0
                  = Some (runs, None))
      \<and> map opened runs = chunks b ?links"
  proof (cases "b < length rs")
    case True
    have "(2::nat) ^ 32 + 2 ^ 32 \<le> 2 ^ 53"
      by simp
    with True assms(7) have bound: "length rs + b < 2 ^ 53"
      by linarith
    from openNextBatch_well_formed [OF assms(1,5) bound, of 0 ?n "delayMs st"] False
    obtain runs where
      runs: "openNextBatch ?n rs (message st) (of_nat b) (delayMs st) 0 = Some (runs, None)"
      and opened: "map opened runs = chunks b ?links"
      by auto
    have "openNextBatch fuel rs (message st) (of_nat b) (delayMs st) 0 = Some (runs, None)"
      if "?n \<le> fuel" for fuel
      using runs that by (rule openNextBatch_mono)
    with opened show ?thesis by blast
  next
    case all: False
    then have le: "(of_nat (length rs) :: rat) \<le> of_nat b"
      by simp
    have one: "?n = 1"
      using all False assms(5) by (intro ceil_div_le) simp_all
    let ?runs = "[map (\<lambda>r. WindowOpen (?f r)) rs]"
    have "openNextBatch fuel rs (message st) (of_nat b) (delayMs st) 0 = Some (?runs, None)"
      if "?n \<le> fuel" for fuel
    proof -
      from that one obtain k where "fuel = Suc k"
        by (cases fuel) auto
      then show ?thesis
        using openNextBatch_single [OF assms(1) _ le, of k "delayMs st"] assms(4,6)
        by simp
    qed
    moreover have "map opened ?runs = chunks b ?links"
      using all False assms(5) by (simp add: chunks_short opened_links)
    ultimately show ?thesis by blast
  qed
  then obtain runs where
    runs: "\<forall>fuel \<ge> ?n. openNextBatch fuel rs (message st) (of_nat b) (delayMs st) 0
        = Some (runs, None)"
    and opened: "map opened runs = chunks b ?links"
    by blast
  have "chunks b ?links \<noteq> []"
    using False assms(5) by (simp add: chunks_simps')
  with opened obtain first later where fl: "runs = first # later"
    by (cases runs) auto
  let ?r = "\<lparr>final = st\<lparr>sending := False\<rparr>,
    ticks = ([SetSending True] @ first @ [SetSending False]) # later, raised = None\<rparr>"
  have "openLinks fuel server st rs = Some ?r" if "?n \<le> fuel" for fuel
    using runs that False assms(2,3,4) fl by (simp add: openLinks_def js_slice_copy)
  moreover have "map opened (ticks ?r) = chunks b ?links"
    using opened fl opened_SetSending [of True first False] by simp
  ultimately show ?thesis
    by (intro exI [of _ ?r]) simp
qed

lemma openLinks_integer_too_few:
  assumes "well_formed (message st)" and "message st \<noteq> []" and "\<not> useApi st"
    and "batchSize st = of_nat b" and "0 < b" and "rs \<noteq> []"
    and "length rs < 2 ^ 32" and "fuel < ceil_div (length rs) b"
  shows "openLinks fuel server st rs = None"
proof (cases "b < length rs")
  case True
  have "(2::nat) ^ 32 + 2 ^ 32 \<le> 2 ^ 53"
    by simp
  with True assms(7) have bound: "length rs + b < 2 ^ 53"
    by linarith
  from openNextBatch_too_few [OF assms(1,5) bound, of 0 fuel "delayMs st"] assms(6,8)
  have "openNextBatch fuel rs (message st) (of_nat b) (delayMs st) 0 = None"
    by simp
  then show ?thesis
    using assms(2,3,4,6) by (simp add: openLinks_def js_slice_copy)
next
  case False
  then have "ceil_div (length rs) b = 1"
    using assms(5,6) by (intro ceil_div_le) simp_all
  with assms(8) have "fuel = 0" by simp
  then show ?thesis
    using assms(2,3,6) by (simp add: openLinks_def)
qed

lemma openLinks_zero:
  assumes "message st \<noteq> []" and "\<not> useApi st" and "batchSize st = 0" and "rs \<noteq> []"
  shows "openLinks fuel server st rs = None"
  using assms by (simp add: openLinks_def js_slice_copy openNextBatch_zero)


lemma nat_min_diff:
  fixes i j :: int
  assumes "0 \<le> i" and "i + 1 \<le> j"
  shows "nat (min j (int n) - int (nat i)) = min (nat j) n - nat i"
  using assms by arith

lemma js_slice_nonneg:
  assumes "0 \<le> x" and "0 \<le> y"
  shows "js_slice rs x y
    = take (nat (min \<lfloor>y\<rfloor> (int (length rs)) - min \<lfloor>x\<rfloor> (int (length rs))))
        (drop (nat (min \<lfloor>x\<rfloor> (int (length rs)))) rs)"
proof -
  have "0 \<le> \<lfloor>x\<rfloor>" "0 \<le> \<lfloor>y\<rfloor>"
    using assms by simp_all
  then show ?thesis
    using assms by (simp add: js_slice_def to_integer_def Let_def)
qed

lemma openNextBatch_any_size:
  assumes "well_formed msg" and "1 \<le> b" and "length rs < 2 ^ 32"
  shows "0 \<le> x \<Longrightarrow> nat \<lfloor>x\<rfloor> < length rs \<Longrightarrow> length rs - nat \<lfloor>x\<rfloor> \<le> k \<Longrightarrow>
     \<exists>runs. openNextBatch k rs msg b d x = Some (runs, None)
       \<and> concat (map opened runs) = map (\<lambda>r. chat_link (phone r) msg) (drop (nat \<lfloor>x\<rfloor>) rs)
       \<and> length runs \<le> length rs - nat \<lfloor>x\<rfloor>
       \<and> (\<forall>g \<in> set (map opened runs). g \<noteq> [])"
proof (induction k arbitrary: x)
  case 0
  then show ?case by simp
next
  case (Suc k)
  let ?f = "\<lambda>r. chat_link (phone r) msg"
  let ?len = "length rs"
  let ?c = "nat \<lfloor>x\<rfloor>"
  let ?next = "js_add x b"
  let ?t = "nat \<lfloor>?next\<rfloor>"
  have fx: "0 \<le> \<lfloor>x\<rfloor>" using Suc.prems(1) by simp
  have "(of_int \<lfloor>x\<rfloor> :: rat) + 1 \<le> x + b"
    using of_int_floor_le [of x] assms(2) by (rule add_mono)
  then have sum: "(of_int (\<lfloor>x\<rfloor> + 1) :: rat) \<le> x + b"
    by (simp only: of_int_add of_int_1)
  have "nat \<lfloor>x\<rfloor> < 2 ^ 32"
    using Suc.prems(2) assms(3) by (rule less_trans)
  then have "int (nat \<lfloor>x\<rfloor>) < int (2 ^ 32)"
    by (simp only: of_nat_less_iff)
  then have "\<lfloor>x\<rfloor> < 2 ^ 32"
    using fx by simp
  then have small: "\<lfloor>x\<rfloor> + 1 < 2 ^ 53" by simp
  have ge: "(of_int (\<lfloor>x\<rfloor> + 1) :: rat) \<le> ?next"
    unfolding js_add_def using fx small sum by (intro to_double_ge_int) simp_all
  then have next_floor: "\<lfloor>x\<rfloor> + 1 \<le> \<lfloor>?next\<rfloor>"
    by (simp only: le_floor_iff)
  then have next_pos: "0 \<le> ?next" and t: "?c < ?t"
    using fx ge by (simp_all add: order_trans [OF _ ge])
  let ?m = "min ?t ?len - ?c"
  have slice: "js_slice rs x ?next = take ?m (drop ?c rs)"
  proof -
    have "min \<lfloor>x\<rfloor> (int ?len) = int ?c"
      using Suc.prems(2) fx by simp
    moreover have "nat (min \<lfloor>?next\<rfloor> (int ?len) - int ?c) = ?m"
      using fx next_floor by (rule nat_min_diff)
    ultimately show ?thesis
      using js_slice_nonneg [OF Suc.prems(1) next_pos, of rs] by simp
  qed
  have batch: "open_batch msg (js_slice rs x ?next)
      = (map (\<lambda>r. WindowOpen (?f r)) (take ?m (drop ?c rs)), None)"
    using assms(1) by (simp only: slice open_batch_well_formed)
  have "0 < length (take ?m (drop ?c rs))"
    unfolding length_take length_drop using t Suc.prems(2) by arith
  then have nonempty: "take ?m (drop ?c rs) \<noteq> []"
    by (rule length_greater_0_conv [THEN iffD1])
  show ?case
  proof (cases "?next < of_nat ?len")
    case True
    then have "\<lfloor>?next\<rfloor> < int ?len"
      by (simp add: floor_less_iff)
    then have t_len: "?t < ?len"
      using next_floor fx by arith
    have "?len - ?t \<le> k"
      using t Suc.prems(3) by arith
    from Suc.IH [OF next_pos t_len this] obtain later where
      later: "openNextBatch k rs msg b d ?next = Some (later, None)"
      and all: "concat (map opened later) = map ?f (drop ?t rs)"
      and count: "length later \<le> ?len - ?t"
      and groups: "\<forall>g \<in> set (map opened later). g \<noteq> []"
      by blast
    have "?m + ?c = ?t"
      using t t_len by arith
    then have drop: "drop ?t rs = drop ?m (drop ?c rs)"
      by (simp only: drop_drop)
    have parts: "map ?f (take ?m (drop ?c rs)) @ map ?f (drop ?t rs) = map ?f (drop ?c rs)"
      unfolding drop by (simp only: append_take_drop_id flip: map_append)
    have shorter: "Suc (length later) \<le> ?len - ?c"
      using count t t_len by arith
    let ?evs = "map (\<lambda>r. WindowOpen (?f r)) (take ?m (drop ?c rs))"
    let ?runs = "(?evs @ [SetTimeout d]) # later"
    have "openNextBatch (Suc k) rs msg b d x = Some (?runs, None)"
      using True batch later by (simp add: Let_def)
    moreover have "concat (map opened ?runs) = map ?f (drop ?c rs)"
      using all parts by (simp add: opened_links_timeout del: opened.simps)
    moreover have "length ?runs \<le> ?len - ?c"
      using shorter by simp
    moreover have "\<forall>g \<in> set (map opened ?runs). g \<noteq> []"
      using groups nonempty by (simp add: opened_links_timeout del: opened.simps)
    ultimately show ?thesis
      by blast
  next
    case False
    then have "int ?len \<le> \<lfloor>?next\<rfloor>"
      by (simp add: le_floor_iff not_less)
    then have "?m = ?len - ?c"
      using fx by arith
    then have whole: "take ?m (drop ?c rs) = drop ?c rs"
      by simp
    let ?evs = "map (\<lambda>r. WindowOpen (?f r)) (drop ?c rs)"
    have "openNextBatch (Suc k) rs msg b d x = Some ([?evs], None)"
      using False batch by (simp add: Let_def whole)
    moreover have "concat (map opened [?evs]) = map ?f (drop ?c rs)"
      by (simp add: opened_links del: opened.simps)
    moreover have "length [?evs] \<le> ?len - ?c"
      using Suc.prems(2) by simp
    moreover have "\<forall>g \<in> set (map opened [?evs]). g \<noteq> []"
      using nonempty by (simp add: opened_links whole del: opened.simps)
    ultimately show ?thesis
      by blast
  qed
qed

lemma openLinks_any_size:
  assumes "well_formed (message st)" and "message st \<noteq> []" and "\<not> useApi st"
    and "1 \<le> batchSize st" and "length rs < 2 ^ 32"
  shows "\<exists>r. (\<forall>fuel \<ge> length rs. openLinks fuel server st rs = Some r)
      \<and> raised r = None
      \<and> concat (map opened (ticks r)) = map (\<lambda>x. chat_link (phone x) (message st)) rs
      \<and> length (ticks r) \<le> length rs
      \<and> (\<forall>g \<in> set (map opened (ticks r)). g \<noteq> [])"
proof (cases "rs = []")
  case True
  let ?r = "\<lparr>final = st, ticks = [], raised = None\<rparr>"
  have "\<forall>fuel. openLinks fuel server st rs = Some ?r"
    using True by (simp add: openLinks_def)
  then show ?thesis
    using True by (intro exI [of _ ?r]) simp
next
  case False
  let ?links = "map (\<lambda>x. chat_link (phone x) (message st)) rs"
  from openNextBatch_any_size [OF assms(1,4,5), of 0 "length rs" "delayMs st"] False
  obtain runs where
    runs: "openNextBatch (length rs) rs (message st) (batchSize st) (delayMs st) 0
        = Some (runs, None)"
    and all: "concat (map opened runs) = ?links"
    and count: "length runs \<le> length rs"
    and groups: "\<forall>g \<in> set (map opened runs). g \<noteq> []"
    by auto
  have "?links \<noteq> []" using False by simp
  with all obtain first later where fl: "runs = first # later"
    by (cases runs) auto
  let ?r = "\<lparr>final = st\<lparr>sending := False\<rparr>,
    ticks = ([SetSending True] @ first @ [SetSending False]) # later, raised = None\<rparr>"
  have "openLinks fuel server st rs = Some ?r" if "length rs \<le> fuel" for fuel
  proof -
    have "openNextBatch fuel rs (message st) (batchSize st) (delayMs st) 0 = Some (runs, None)"
      using runs that by (rule openNextBatch_mono)
    then show ?thesis
      using False assms(2,3) fl by (simp add: openLinks_def js_slice_copy)
  qed
  moreover have "map opened (ticks ?r) = map opened runs"
    using fl opened_SetSending [of True first False] by simp
  moreover have "length (ticks ?r) = length runs"
    using fl by simp
  ultimately show ?thesis
    using all count groups by (intro exI [of _ ?r]) (simp del: opened.simps append.simps)
qed


lemma ceil_div_le_self: "0 < b \<Longrightarrow> ceil_div n b \<le> n"
proof -
  assume b: "0 < b"
  then have "n \<le> n * b" by simp
  with b have "n + b - 1 < n * b + b" by arith
  then have "n + b - 1 < Suc n * b" by simp
  then have "(n + b - 1) div b < Suc n"
    by (rule less_mult_imp_div_less)
  then show ?thesis by (simp add: ceil_div_def)
qed

lemma chunks_25_10: "length xs = 25 \<Longrightarrow> map length (chunks 10 xs) = [10, 10, 5]"
proof -
  assume l: "length xs = 25"
  then have a: "xs \<noteq> []" "drop 10 xs \<noteq> []" "drop 10 (drop 10 xs) \<noteq> []"
    "drop 10 (drop 10 (drop 10 xs)) = []"
    by auto
  have "chunks 10 xs = [take 10 xs, take 10 (drop 10 xs), take 10 (drop 10 (drop 10 xs))]"
    using a by (simp add: chunks_simps' del: drop_drop drop_eq_Nil drop_eq_Nil2)
  then show ?thesis using l by simp
qed

lemma page_25_recipients: "parseNumbers (rawNumbers page_25) = twenty_five"
  by code_simp

lemma hello_well_formed: "well_formed (js ''Hi there!'')"
  by code_simp

subsection \<open>The claims\<close>

text \<open>
  C8. For every dispatch with an empty message or no recipient, \<open>openLinks\<close> returns at
  once, for every bound on the timer runs and every server: nothing happens (no
  \<open>window.open\<close>, no \<open>fetch\<close>, no \<open>setSending\<close>, no timer), nothing is raised and
  the page's state is as before.
\<close>

theorem openLinks_refused:
  "(message st = [] \<or> rs = [] \<longrightarrow>
      openLinks fuel server st rs = Some \<lparr>final = st, ticks = [], raised = None\<rparr>)
   \<and> (message st = [] \<or> parseNumbers (rawNumbers st) = [] \<longrightarrow>
      Page_openLinks fuel server st = Some \<lparr>final = st, ticks = [], raised = None\<rparr>)"
proof (intro conjI impI)
  assume "message st = [] \<or> rs = []"
  then show "openLinks fuel server st rs = Some \<lparr>final = st, ticks = [], raised = None\<rparr>"
    by (auto simp: openLinks_def)
next
  assume a: "message st = [] \<or> parseNumbers (rawNumbers st) = []"
  have "\<exists>view. render st = Inr view"
  proof (cases "parseNumbers (rawNumbers st) = []")
    case True
    then show ?thesis by (simp add: render_def js_slice_100)
  next
    case False
    with a have "well_formed (message st)" by simp
    then show ?thesis by (simp add: render_links)
  qed
  with a show "Page_openLinks fuel server st = Some \<lparr>final = st, ticks = [], raised = None\<rparr>"
    by (auto simp: Page_openLinks_def)
qed

theorem openLinks_refused_witness:
  "message (hello_page\<lparr>message := []\<rparr>) = []
   \<and> twenty_five \<noteq> []
   \<and> openLinks 3 offline (hello_page\<lparr>message := []\<rparr>) twenty_five
       = Some \<lparr>final = hello_page\<lparr>message := []\<rparr>, ticks = [], raised = None\<rparr>
   \<and> message hello_page \<noteq> []
   \<and> parseNumbers (rawNumbers hello_page) = []
   \<and> Page_openLinks 3 offline hello_page
       = Some \<lparr>final = hello_page, ticks = [], raised = None\<rparr>"
proof -
  have p: "parseNumbers (rawNumbers hello_page) = []"
    by code_simp
  have t: "twenty_five \<noteq> []" "message hello_page \<noteq> []"
    by (simp_all add: twenty_five_def hello_page_def js_def)
  show ?thesis
    using openLinks_refused [of "hello_page\<lparr>message := []\<rparr>" twenty_five 3 offline]
      openLinks_refused [of hello_page twenty_five 3 offline] p t
    by simp
qed

text \<open>
  C5, as the code has it. In client-direct mode, on a page that has rendered its preview
  and is not sending, with a non-empty message, fewer than \<open>2\<^sup>3\<^sup>2\<close> recipients (the
  bound on the length of an array) and a batch size \<open>b \<ge> 1\<close> that is a double: the
  dispatch ends within \<open>n\<close> runs of \<open>openNextBatch\<close> and without an exception; the links
  opened in the successive runs are, one run after the other, one link per recipient in
  the list's order, and every run opens a link. When \<open>b\<close> is an integer the dispatch ends
  after \<open>ceil(n/b)\<close> runs and the links opened in the successive runs are the consecutive
  groups of \<open>b\<close> links: every group but the last has \<open>b\<close> links, and the last has between
  1 and \<open>b\<close>.
\<close>

theorem openLinks_batches:
  assumes "render st = Inr view" and "\<not> sending st" and "message st \<noteq> []"
    and "\<not> useApi st" and "is_double (batchSize st)" and "1 \<le> batchSize st"
    and "length (parseNumbers (rawNumbers st)) < 2 ^ 32"
  shows "\<exists>r. (\<forall>fuel \<ge> length (parseNumbers (rawNumbers st)).
              Page_openLinks fuel server st = Some r)
      \<and> raised r = None
      \<and> concat (map opened (ticks r))
          = map (\<lambda>x. chat_link (phone x) (message st)) (parseNumbers (rawNumbers st))
      \<and> length (ticks r) \<le> length (parseNumbers (rawNumbers st))
      \<and> (\<forall>g \<in> set (map opened (ticks r)). g \<noteq> [])
      \<and> (\<forall>b. batchSize st = of_int b \<longrightarrow>
            (\<forall>fuel \<ge> ceil_div (length (parseNumbers (rawNumbers st))) (nat b).
               Page_openLinks fuel server st = Some r)
          \<and> map opened (ticks r)
              = chunks (nat b)
                  (map (\<lambda>x. chat_link (phone x) (message st)) (parseNumbers (rawNumbers st)))
          \<and> length (ticks r) = ceil_div (length (parseNumbers (rawNumbers st))) (nat b)
          \<and> (\<forall>g \<in> set (butlast (map opened (ticks r))). length g = nat b)
          \<and> (parseNumbers (rawNumbers st) \<noteq> [] \<longrightarrow> last (map opened (ticks r)) \<noteq> []
                \<and> length (last (map opened (ticks r))) \<le> nat b))"
proof -
  let ?rs = "parseNumbers (rawNumbers st)"
  let ?links = "map (\<lambda>x. chat_link (phone x) (message st)) ?rs"
  have "\<exists>r. (\<forall>fuel \<ge> length ?rs. openLinks fuel server st ?rs = Some r)
      \<and> raised r = None \<and> concat (map opened (ticks r)) = ?links
      \<and> length (ticks r) \<le> length ?rs
      \<and> (\<forall>g \<in> set (map opened (ticks r)). g \<noteq> [])"
  proof (cases "?rs = []")
    case True
    let ?r = "\<lparr>final = st, ticks = [], raised = None\<rparr>"
    have "\<forall>fuel. openLinks fuel server st ?rs = Some ?r"
      using True by (simp add: openLinks_def)
    then show ?thesis
      using True by (intro exI [of _ ?r]) simp
  next
    case False
    with assms(1) have "well_formed (message st)"
      by (rule render_well_formed)
    then show ?thesis
      using assms(3,4,6,7) by (rule openLinks_any_size)
  qed
  then obtain r where run: "\<forall>fuel \<ge> length ?rs. openLinks fuel server st ?rs = Some r"
    and ok: "raised r = None" and all: "concat (map opened (ticks r)) = ?links"
    and count: "length (ticks r) \<le> length ?rs"
    and groups: "\<forall>g \<in> set (map opened (ticks r)). g \<noteq> []"
    by blast
  have page: "\<forall>fuel \<ge> length ?rs. Page_openLinks fuel server st = Some r"
    using run by (simp only: Page_openLinks_rendered [OF assms(1,2)])
  have whole: "(\<forall>fuel \<ge> ceil_div (length ?rs) (nat b). Page_openLinks fuel server st = Some r)
      \<and> map opened (ticks r) = chunks (nat b) ?links
      \<and> length (ticks r) = ceil_div (length ?rs) (nat b)
      \<and> (\<forall>g \<in> set (butlast (map opened (ticks r))). length g = nat b)
      \<and> (?rs \<noteq> [] \<longrightarrow> last (map opened (ticks r)) \<noteq> []
            \<and> length (last (map opened (ticks r))) \<le> nat b)"
    if size_b: "batchSize st = of_int b" for b
  proof -
    let ?b = "nat b"
    have "1 \<le> b"
      using assms(6) by (simp add: size_b)
    then have b: "0 < ?b" and size: "batchSize st = of_nat ?b"
      using size_b by simp_all
    have shape: "length (chunks ?b ?links) = ceil_div (length ?rs) ?b"
      "\<forall>g \<in> set (butlast (chunks ?b ?links)). length g = ?b"
      "?rs \<noteq> [] \<longrightarrow> last (chunks ?b ?links) \<noteq> [] \<and> length (last (chunks ?b ?links)) \<le> ?b"
      using b length_chunks [of ?b ?links] chunks_sizes [of ?b _ ?links] chunks_last [of ?b ?links]
      by auto
    have "\<exists>r. (\<forall>fuel \<ge> ceil_div (length ?rs) ?b. openLinks fuel server st ?rs = Some r)
        \<and> map opened (ticks r) = chunks ?b ?links"
    proof (cases "?rs = []")
      case True
      let ?r = "\<lparr>final = st, ticks = [], raised = None\<rparr>"
      have "\<forall>fuel. openLinks fuel server st ?rs = Some ?r"
        using True by (simp add: openLinks_def)
      moreover have "map opened (ticks ?r) = chunks ?b ?links"
        using True by (simp add: chunks_simps')
      ultimately show ?thesis
        by (intro exI [of _ ?r]) simp
    next
      case False
      with assms(1) have "well_formed (message st)"
        by (rule render_well_formed)
      from openLinks_integer_batches [OF this assms(3,4) size b assms(5,7), of server]
      show ?thesis by blast
    qed
    then obtain r' where
      run': "\<forall>fuel \<ge> ceil_div (length ?rs) ?b. openLinks fuel server st ?rs = Some r'"
      and m': "map opened (ticks r') = chunks ?b ?links"
      by blast
    have "ceil_div (length ?rs) ?b \<le> length ?rs"
      using b by (rule ceil_div_le_self)
    with run' have "openLinks (length ?rs) server st ?rs = Some r'"
      by blast
    moreover have "openLinks (length ?rs) server st ?rs = Some r"
      using run by blast
    ultimately have same: "r' = r"
      by simp
    have "\<forall>fuel \<ge> ceil_div (length ?rs) ?b. Page_openLinks fuel server st = Some r"
      using run' by (simp only: same Page_openLinks_rendered [OF assms(1,2)])
    moreover have m: "map opened (ticks r) = chunks ?b ?links"
      using m' by (simp only: same)
    moreover have "length (ticks r) = length (map opened (ticks r))"
      by simp
    then have "length (ticks r) = ceil_div (length ?rs) ?b"
      by (simp only: m shape(1))
    ultimately show ?thesis
      using shape(2,3) by (simp only: simp_thms)
  qed
  then have exact: "\<forall>b. batchSize st = of_int b \<longrightarrow>
      (\<forall>fuel \<ge> ceil_div (length ?rs) (nat b). Page_openLinks fuel server st = Some r)
      \<and> map opened (ticks r) = chunks (nat b) ?links
      \<and> length (ticks r) = ceil_div (length ?rs) (nat b)
      \<and> (\<forall>g \<in> set (butlast (map opened (ticks r))). length g = nat b)
      \<and> (?rs \<noteq> [] \<longrightarrow> last (map opened (ticks r)) \<noteq> []
            \<and> length (last (map opened (ticks r))) \<le> nat b)"
    by blast
  show ?thesis
    by (intro exI [of _ r] conjI) (rule page ok all count groups exact)+
qed

theorem openLinks_batches_witness:
  "render page_25 = Inr (map (\<lambda>x. chat_link (phone x) (js ''Hi there!'')) twenty_five)
   \<and> \<not> sending page_25 \<and> message page_25 \<noteq> [] \<and> \<not> useApi page_25
   \<and> batchSize page_25 = of_int 10 \<and> is_double (batchSize page_25) \<and> 1 \<le> batchSize page_25
   \<and> parseNumbers (rawNumbers page_25) = twenty_five \<and> length twenty_five = 25
   \<and> (\<exists>r. Page_openLinks 3 offline page_25 = Some r \<and> Page_openLinks 25 offline page_25 = Some r
          \<and> raised r = None
          \<and> concat (map opened (ticks r))
              = map (\<lambda>x. chat_link (phone x) (js ''Hi there!'')) twenty_five
          \<and> length (ticks r) = 3
          \<and> map length (map opened (ticks r)) = [10, 10, 5])"
proof -
  have h: "\<not> sending page_25" "message page_25 \<noteq> []" "\<not> useApi page_25"
    "batchSize page_25 = of_int 10" "message page_25 = js ''Hi there!''"
    "1 \<le> batchSize page_25"
    by (simp_all add: page_25_def hello_page_def js_def)
  have d: "is_double (batchSize page_25)"
    unfolding h(4) by (rule is_double_int) simp
  have l: "length twenty_five = 25"
    by (simp add: twenty_five_def)
  have v: "render page_25 = Inr (map (\<lambda>x. chat_link (phone x) (js ''Hi there!'')) twenty_five)"
    using render_links [of page_25] hello_well_formed l
    by (simp add: h(5) page_25_recipients)
  have n: "length (parseNumbers (rawNumbers page_25)) < 2 ^ 32"
    by (simp add: page_25_recipients l)
  have c: "ceil_div 25 (nat 10) = 3"
    by (simp add: ceil_div_def)
  let ?rs = "parseNumbers (rawNumbers page_25)"
  let ?links = "map (\<lambda>x. chat_link (phone x) (message page_25)) ?rs"
  from openLinks_batches [OF v h(1,2,3) d h(6) n, of offline]
  obtain r where R: "(\<forall>fuel \<ge> length ?rs. Page_openLinks fuel offline page_25 = Some r)
      \<and> raised r = None
      \<and> concat (map opened (ticks r)) = ?links
      \<and> length (ticks r) \<le> length ?rs
      \<and> (\<forall>g \<in> set (map opened (ticks r)). g \<noteq> [])
      \<and> (\<forall>b. batchSize page_25 = of_int b \<longrightarrow>
            (\<forall>fuel \<ge> ceil_div (length ?rs) (nat b). Page_openLinks fuel offline page_25 = Some r)
          \<and> map opened (ticks r) = chunks (nat b) ?links
          \<and> length (ticks r) = ceil_div (length ?rs) (nat b)
          \<and> (\<forall>g \<in> set (butlast (map opened (ticks r))). length g = nat b)
          \<and> (?rs \<noteq> [] \<longrightarrow> last (map opened (ticks r)) \<noteq> []
                \<and> length (last (map opened (ticks r))) \<le> nat b))"
    ..
  note general = R [THEN conjunct1] R [THEN conjunct2, THEN conjunct1]
    R [THEN conjunct2, THEN conjunct2, THEN conjunct1]
  note exact = R [THEN conjunct2, THEN conjunct2, THEN conjunct2, THEN conjunct2,
    THEN conjunct2, THEN spec, THEN mp, OF h(4)]
  have run: "\<forall>fuel \<ge> 25. Page_openLinks fuel offline page_25 = Some r"
    using general(1) by (simp only: page_25_recipients l)
  have r: "raised r = None"
    "concat (map opened (ticks r))
      = map (\<lambda>x. chat_link (phone x) (js ''Hi there!'')) twenty_five"
    using general(2,3) by (simp_all only: page_25_recipients h(5))
  have run3: "\<forall>fuel \<ge> 3. Page_openLinks fuel offline page_25 = Some r"
    using exact [THEN conjunct1] by (simp only: page_25_recipients l c)
  have m: "map opened (ticks r)
      = chunks (nat 10) (map (\<lambda>x. chat_link (phone x) (js ''Hi there!'')) twenty_five)"
    using exact [THEN conjunct2, THEN conjunct1] by (simp only: page_25_recipients h(5))
  have k: "length (ticks r) = 3"
    using exact [THEN conjunct2, THEN conjunct2, THEN conjunct1]
    by (simp only: page_25_recipients l c)
  have "map length (map opened (ticks r)) = [10, 10, 5]"
    unfolding m using l by (simp add: chunks_25_10)
  moreover have "Page_openLinks 3 offline page_25 = Some r"
    "Page_openLinks 25 offline page_25 = Some r"
    using run run3 by simp_all
  ultimately show ?thesis
    using r k h d v l page_25_recipients by (intro conjI exI [of _ r]) simp_all
qed

text \<open>
  The groups of C5 are not those of a batch size that is not an integer, which the batch
  size field lets through (\<open>Number(e.target.value || 1)\<close>): \<open>slice\<close> truncates its bounds
  and the cursor keeps its fraction. With 7 recipients and batch size 2.5 the cursor is
  0, 2.5, 5 and the three runs open 2, 3 and 2 links.
\<close>

theorem openLinks_fractional_batch:
  "group_sizes (Page_openLinks 3 offline (page_7\<lparr>batchSize := 5 / 2\<rparr>)) = Some [2, 3, 2]
   \<and> length (parseNumbers (rawNumbers page_7)) = 7"
  by code_simp

text \<open>
  C9, as the code has it. For every non-empty list of fewer than \<open>2\<^sup>3\<^sup>2\<close> recipients, in
  client-direct mode, on a page that has rendered its preview and is not sending, with a
  non-empty message: with a batch size \<open>\<ge> 1\<close> that is a double, the chain of
  \<open>openNextBatch\<close> runs ends, without an exception, within \<open>n\<close> runs; with an integer
  batch size \<open>b \<ge> 1\<close> it ends after exactly \<open>ceil(n/b)\<close> runs (a timer is pending after
  any smaller number of runs); with batch size 0 a timer is pending after any number of
  runs.
\<close>

theorem openNextBatch_terminates:
  assumes "render st = Inr view" and "\<not> sending st" and "message st \<noteq> []"
    and "\<not> useApi st" and "parseNumbers (rawNumbers st) \<noteq> []"
    and "length (parseNumbers (rawNumbers st)) < 2 ^ 32"
  shows "(is_double (batchSize st) \<and> 1 \<le> batchSize st \<longrightarrow>
           (\<exists>r. (\<forall>fuel \<ge> length (parseNumbers (rawNumbers st)).
                    Page_openLinks fuel server st = Some r)
               \<and> raised r = None
               \<and> length (ticks r) \<le> length (parseNumbers (rawNumbers st))))
     \<and> (batchSize st = of_int b \<and> 1 \<le> b \<and> is_double (batchSize st) \<longrightarrow>
           (\<forall>fuel. (\<exists>r. Page_openLinks fuel server st = Some r \<and> raised r = None
                      \<and> length (ticks r)
                          = ceil_div (length (parseNumbers (rawNumbers st))) (nat b))
                 \<longleftrightarrow> ceil_div (length (parseNumbers (rawNumbers st))) (nat b) \<le> fuel)
           \<and> (\<forall>fuel < ceil_div (length (parseNumbers (rawNumbers st))) (nat b).
                 Page_openLinks fuel server st = None))
     \<and> (batchSize st = 0 \<longrightarrow> (\<forall>fuel. Page_openLinks fuel server st = None))"
proof (intro conjI impI)
  let ?rs = "parseNumbers (rawNumbers st)"
  assume "is_double (batchSize st) \<and> 1 \<le> batchSize st"
  then have size: "1 \<le> batchSize st"
    by blast
  have "well_formed (message st)"
    using assms(1,5) by (rule render_well_formed)
  from openLinks_any_size [OF this assms(3,4) size assms(6), of server]
  obtain r where "\<forall>fuel \<ge> length ?rs. openLinks fuel server st ?rs = Some r"
    and "raised r = None" and "length (ticks r) \<le> length ?rs"
    by blast
  then show "\<exists>r. (\<forall>fuel \<ge> length ?rs. Page_openLinks fuel server st = Some r)
      \<and> raised r = None \<and> length (ticks r) \<le> length ?rs"
    by (simp only: Page_openLinks_rendered [OF assms(1,2)]) blast
next
  let ?rs = "parseNumbers (rawNumbers st)"
  let ?n = "ceil_div (length ?rs) (nat b)"
  assume size_b: "batchSize st = of_int b \<and> 1 \<le> b \<and> is_double (batchSize st)"
  then have b: "0 < nat b" and size: "batchSize st = of_nat (nat b)"
    by simp_all
  from size_b have dbl: "is_double (batchSize st)"
    by blast
  have wf: "well_formed (message st)"
    using assms(1,5) by (rule render_well_formed)
  have few: "Page_openLinks fuel server st = None" if "fuel < ?n" for fuel
    using openLinks_integer_too_few [OF wf assms(3,4) size b assms(5,6) that]
    by (simp only: Page_openLinks_rendered [OF assms(1,2)])
  from openLinks_integer_batches [OF wf assms(3,4) size b dbl assms(6), of server]
  obtain r where run: "\<forall>fuel \<ge> ?n. openLinks fuel server st ?rs = Some r"
    and ok: "raised r = None"
    and m: "map opened (ticks r)
      = chunks (nat b) (map (\<lambda>x. chat_link (phone x) (message st)) ?rs)"
    by blast
  have "length (ticks r) = length (map opened (ticks r))"
    by simp
  then have len: "length (ticks r) = ?n"
    using length_chunks [OF b, of "map (\<lambda>x. chat_link (phone x) (message st)) ?rs"]
    by (simp only: m length_map)
  show "\<forall>fuel. (\<exists>r. Page_openLinks fuel server st = Some r \<and> raised r = None
                  \<and> length (ticks r) = ?n) \<longleftrightarrow> ?n \<le> fuel"
  proof (intro allI iffI)
    fix fuel
    assume "\<exists>r. Page_openLinks fuel server st = Some r \<and> raised r = None \<and> length (ticks r) = ?n"
    then show "?n \<le> fuel"
      using few [of fuel] by (cases "fuel < ?n") auto
  next
    fix fuel
    assume "?n \<le> fuel"
    with run have "Page_openLinks fuel server st = Some r"
      by (simp only: Page_openLinks_rendered [OF assms(1,2)])
    with ok len
    show "\<exists>r. Page_openLinks fuel server st = Some r \<and> raised r = None \<and> length (ticks r) = ?n"
      by blast
  qed
  show "\<forall>fuel < ?n. Page_openLinks fuel server st = None"
    using few by blast
next
  assume "batchSize st = 0"
  then show "\<forall>fuel. Page_openLinks fuel server st = None"
    using openLinks_zero [OF assms(3,4) _ assms(5), of _ server]
    by (simp only: Page_openLinks_rendered [OF assms(1,2)]) simp
qed

theorem openNextBatch_terminates_witness:
  "render page_25 = Inr (map (\<lambda>x. chat_link (phone x) (js ''Hi there!'')) twenty_five)
   \<and> \<not> sending page_25 \<and> message page_25 \<noteq> [] \<and> \<not> useApi page_25
   \<and> parseNumbers (rawNumbers page_25) = twenty_five \<and> length twenty_five = 25
   \<and> batchSize page_25 = of_int 10 \<and> is_double (batchSize page_25) \<and> 1 \<le> batchSize page_25
   \<and> ceil_div 25 (nat 10) = 3
   \<and> (\<exists>r. Page_openLinks 25 offline page_25 = Some r \<and> raised r = None
          \<and> length (ticks r) \<le> 25)
   \<and> (\<exists>r. Page_openLinks 3 offline page_25 = Some r \<and> raised r = None \<and> length (ticks r) = 3)
   \<and> Page_openLinks 2 offline page_25 = None
   \<and> Page_openLinks 1000 offline (page_25\<lparr>batchSize := 0\<rparr>) = None"
proof -
  have h: "\<not> sending page_25" "message page_25 \<noteq> []" "\<not> useApi page_25"
    "batchSize page_25 = of_int 10" "message page_25 = js ''Hi there!''"
    by (simp_all add: page_25_def hello_page_def js_def)
  have d: "is_double (batchSize page_25)"
    unfolding h(4) by (rule is_double_int) simp
  have l: "length twenty_five = 25" and t: "twenty_five \<noteq> []"
    by (simp_all add: twenty_five_def)
  have v: "render page_25 = Inr (map (\<lambda>x. chat_link (phone x) (js ''Hi there!'')) twenty_five)"
    using render_links [of page_25] hello_well_formed l
    by (simp add: h(5) page_25_recipients)
  have c: "ceil_div 25 (nat 10) = 3"
    by (simp add: ceil_div_def)
  have z: "render (page_25\<lparr>batchSize := 0\<rparr>) = render page_25"
    "parseNumbers (rawNumbers (page_25\<lparr>batchSize := 0\<rparr>)) = twenty_five"
    by (simp_all add: render_def page_25_recipients)
  have p: "parseNumbers (rawNumbers page_25) \<noteq> []"
    "length (parseNumbers (rawNumbers page_25)) < 2 ^ 32"
    by (simp_all add: page_25_recipients l t)
  have o: "1 \<le> batchSize page_25"
    by (simp add: h(4))
  note T = openNextBatch_terminates [OF v h(1,2,3) p, of offline 10]
  from T [THEN conjunct1, THEN mp, OF conjI [OF d o]]
  obtain r where "\<forall>fuel \<ge> 25. Page_openLinks fuel offline page_25 = Some r"
    and "raised r = None" and "length (ticks r) \<le> 25"
    unfolding page_25_recipients l by blast
  then have "Page_openLinks 25 offline page_25 = Some r \<and> raised r = None
      \<and> length (ticks r) \<le> 25"
    by simp
  then have g25: "\<exists>r. Page_openLinks 25 offline page_25 = Some r \<and> raised r = None
      \<and> length (ticks r) \<le> 25"
    ..
  from T [THEN conjunct2, THEN conjunct1, THEN mp, OF conjI [OF h(4) conjI [OF _ d]]]
  have a: "\<forall>fuel. (\<exists>r. Page_openLinks fuel offline page_25 = Some r \<and> raised r = None
                     \<and> length (ticks r) = 3) \<longleftrightarrow> 3 \<le> fuel"
    and b: "\<forall>fuel < 3. Page_openLinks fuel offline page_25 = None"
    unfolding page_25_recipients l c by simp_all
  have "render (page_25\<lparr>batchSize := 0\<rparr>)
      = Inr (map (\<lambda>x. chat_link (phone x) (js ''Hi there!'')) twenty_five)"
    by (simp only: z v)
  from openNextBatch_terminates [OF this, of offline 10]
  have e: "\<forall>fuel. Page_openLinks fuel offline (page_25\<lparr>batchSize := 0\<rparr>) = None"
    using h t l p by (simp add: z)
  have "\<exists>r. Page_openLinks 3 offline page_25 = Some r \<and> raised r = None \<and> length (ticks r) = 3"
    using a by simp
  moreover have "Page_openLinks 2 offline page_25 = None"
    using b by simp
  moreover have "Page_openLinks 1000 offline (page_25\<lparr>batchSize := 0\<rparr>) = None"
    using e by blast
  ultimately show ?thesis
    using v h(1-4) d o l c g25 page_25_recipients by (simp only: simp_thms)
qed

text \<open>
  The number of runs of C9 is not \<open>ceil(n/batchSize)\<close> for every batch size: the cursor
  is a double and every addition rounds. With 11 recipients and batch size 1.1 (the
  double \<open>4953959590107546 / 2\<^sup>5\<^sup>2\<close>), \<open>ceil(11/1.1) = 10\<close>, but the cursor is still
  below 11 after ten additions and every run opens one link: the chain ends after 11
  runs.
\<close>

theorem openNextBatch_rounded_cursor:
  "length (parseNumbers (rawNumbers page_11)) = 11
   \<and> is_double double_1_1 \<and> 1 \<le> double_1_1
   \<and> \<lceil>11 / double_1_1\<rceil> = 10
   \<and> group_sizes (Page_openLinks 11 offline (page_11\<lparr>batchSize := double_1_1\<rparr>))
       = Some [1, 1, 1, 1, 1, 1, 1, 1, 1, 1, 1]"
  by code_simp

section \<open>Properties of the send endpoint\<close>

lemma length_outcomes: "length (outcomes api w reqs) = length reqs"
proof (induction reqs arbitrary: w)
  case Nil
  then show ?case by simp
next
  case (Cons r reqs)
  then show ?case by (cases "api w r") simp
qed

lemma send_loop_eq:
  "\<exists>w'. send_loop api token pid m tos results calls w
     = (results @ map2 record_of tos (outcomes api w (map (\<lambda>t. make_request token pid t m) tos)),
        calls @ map (\<lambda>t. make_request token pid t m) tos, w')"
proof (induction tos arbitrary: results calls w)
  case Nil
  then show ?case by simp
next
  case (Cons t tos)
  let ?mk = "\<lambda>t. make_request token pid t m"
  obtain out w1 where step: "api w (?mk t) = (out, w1)"
    by (cases "api w (?mk t)")
  from Cons.IH [of "results @ [record_of t out]" "calls @ [?mk t]" w1]
  obtain w' where "send_loop api token pid m tos (results @ [record_of t out]) (calls @ [?mk t]) w1
     = ((results @ [record_of t out]) @ map2 record_of tos (outcomes api w1 (map ?mk tos)),
        (calls @ [?mk t]) @ map ?mk tos, w')"
    by blast
  then have "send_loop api token pid m (t # tos) results calls w
     = (results @ map2 record_of (t # tos) (outcomes api w (map ?mk (t # tos))),
        calls @ map ?mk (t # tos), w')"
    using step by simp
  then show ?case by blast
qed

lemma to_record_of: "to (record_of t out) = t"
  by (cases out) (simp_all add: record_of_def)

lemma ok_record_of: "ok (record_of t out) = succeeded out"
  by (cases out) (simp_all add: record_of_def)

lemma error_record_of: "\<not> succeeded out \<Longrightarrow> \<exists>j. error (record_of t out) = Some j"
  by (cases out) (simp_all add: record_of_def)

lemma map_to_records:
  "length outs = length tos \<Longrightarrow> map to (map2 record_of tos outs) = tos"
  by (induction outs tos rule: list_induct2) (simp_all add: to_record_of)

lemma map_ok_records:
  "length outs = length tos \<Longrightarrow> map ok (map2 record_of tos outs) = map succeeded outs"
  by (induction outs tos rule: list_induct2) (simp_all add: ok_record_of)

lemma records_match_outcomes:
  "length outs = length tos \<Longrightarrow>
   list_all2 (\<lambda>r out. ok r = succeeded out \<and> (\<not> succeeded out \<longrightarrow> error r \<noteq> None))
     (map2 record_of tos outs) outs"
  by (induction outs tos rule: list_induct2) (simp_all add: ok_record_of error_record_of)

lemma POST_invalid:
  "\<not> valid_payload req \<Longrightarrow>
   POST api e w req = (\<lparr>status = 400, payload = ErrorBody (js ''Invalid payload'')\<rparr>, [], w)"
proof (cases req)
  case None
  then show ?thesis by (simp add: POST_def or_else_def)
next
  case (Some b)
  assume "\<not> valid_payload req"
  with Some have bad: "\<not> nonempty_array (get_prop b (js ''recipients''))
      \<or> \<not> nonempty (get_prop b (js ''message''))"
    by (simp add: valid_payload_def)
  have r: "\<not> nonempty_array v \<Longrightarrow>
      \<not> is_array (or_else v (JArr [])) \<or> length (elements (or_else v (JArr []))) = 0" for v
    by (cases v rule: nonempty_array.cases) (auto simp: or_else_def)
  have m: "\<not> nonempty v \<Longrightarrow> \<not> truthy (or_else v (JStr []))" for v
    by (cases v) (auto simp: or_else_def)
  from bad r m Some show ?thesis
    by (auto simp: POST_def Let_def)
qed

lemma valid_payloadD:
  assumes "valid_payload req"
  obtains b t tos m where "req = Some b" "get_prop b (js ''recipients'') = Some (JArr (t # tos))"
    "get_prop b (js ''message'') = Some m" "truthy m"
proof -
  from assms obtain b where b: "req = Some b"
    and r: "nonempty_array (get_prop b (js ''recipients''))"
    and m: "nonempty (get_prop b (js ''message''))"
    by (auto simp: valid_payload_def split: option.splits)
  from r obtain t tos where "get_prop b (js ''recipients'') = Some (JArr (t # tos))"
    by (cases "get_prop b (js ''recipients'')" rule: nonempty_array.cases) auto
  moreover from m obtain v where "get_prop b (js ''message'') = Some v" "truthy v"
    by (cases "get_prop b (js ''message'')") auto
  ultimately show ?thesis using b that by blast
qed

lemma POST_unconfigured:
  assumes "valid_payload req" and "unset (ACCESS_TOKEN e) \<or> unset (PHONE_NUMBER_ID e)"
  shows "POST api e w req
    = (\<lparr>status = 501, payload = ErrorBody (js ''Server not configured for API sending'')\<rparr>, [], w)"
proof -
  from assms(1) obtain b t tos m where "req = Some b"
    "get_prop b (js ''recipients'') = Some (JArr (t # tos))"
    "get_prop b (js ''message'') = Some m" "truthy m"
    by (rule valid_payloadD)
  then show ?thesis
    using assms(2) by (auto simp: POST_def Let_def or_else_def)
qed

text \<open>
  C6. For every request whose body does not parse, or whose \<open>recipients\<close> is missing,
  not an array or an empty array, or whose \<open>message\<close> is missing or empty, the endpoint
  answers with status 400 and the error \<open>Invalid payload\<close>; for every valid payload, when
  the access token or the phone number id is unset or empty, it answers with status 501
  and the error \<open>Server not configured for API sending\<close>. In both cases no outbound
  call is made and the API's state is untouched; both error strings are non-empty.
\<close>

theorem POST_rejects:
  "(\<not> valid_payload req \<longrightarrow>
      POST api e w req
        = (\<lparr>status = 400, payload = ErrorBody (js ''Invalid payload'')\<rparr>, [], w))
   \<and> (valid_payload req \<and> (unset (ACCESS_TOKEN e) \<or> unset (PHONE_NUMBER_ID e)) \<longrightarrow>
      POST api e w req
        = (\<lparr>status = 501,
            payload = ErrorBody (js ''Server not configured for API sending'')\<rparr>, [], w))
   \<and> js ''Invalid payload'' \<noteq> []
   \<and> js ''Server not configured for API sending'' \<noteq> []"
  by (simp add: POST_invalid POST_unconfigured) (simp add: js_def)

theorem POST_rejects_witness:
  "\<not> valid_payload (Some (JObj [(js ''recipients'', JArr []), (js ''message'', JStr (js ''x''))]))
   \<and> POST second_rejected configured 0
         (Some (JObj [(js ''recipients'', JArr []), (js ''message'', JStr (js ''x''))]))
       = (\<lparr>status = 400, payload = ErrorBody (js ''Invalid payload'')\<rparr>, [], 0)
   \<and> \<not> valid_payload (Some (JObj [(js ''recipients'', JStr (js ''14155552671'')),
                                    (js ''message'', JStr (js ''x''))]))
   \<and> \<not> valid_payload (Some (JObj [(js ''recipients'', JArr three_recipients),
                                    (js ''message'', JStr [])]))
   \<and> \<not> valid_payload None
   \<and> valid_payload (Some send_request)
   \<and> unset (PHONE_NUMBER_ID (configured\<lparr>PHONE_NUMBER_ID := None\<rparr>))
   \<and> POST second_rejected (configured\<lparr>PHONE_NUMBER_ID := None\<rparr>) 0 (Some send_request)
       = (\<lparr>status = 501,
           payload = ErrorBody (js ''Server not configured for API sending'')\<rparr>, [], 0)"
proof -
  have v: "\<not> valid_payload (Some (JObj [(js ''recipients'', JArr []), (js ''message'', JStr (js ''x''))]))"
    "\<not> valid_payload (Some (JObj [(js ''recipients'', JStr (js ''14155552671'')),
                                    (js ''message'', JStr (js ''x''))]))"
    "\<not> valid_payload (Some (JObj [(js ''recipients'', JArr three_recipients),
                                    (js ''message'', JStr [])]))"
    "\<not> valid_payload None"
    "valid_payload (Some send_request)"
    by code_simp+
  have u: "unset (PHONE_NUMBER_ID (configured\<lparr>PHONE_NUMBER_ID := None\<rparr>))"
    by (simp add: unset_def)
  show ?thesis
    using POST_rejects [of "Some (JObj [(js ''recipients'', JArr []), (js ''message'', JStr (js ''x''))])"
        second_rejected configured 0]
      POST_rejects [of "Some send_request" second_rejected "configured\<lparr>PHONE_NUMBER_ID := None\<rparr>" 0]
      v u
    by (simp only: simp_thms)
qed

text \<open>
  C7. For every valid request to a configured endpoint, \<open>POST\<close> answers with status 200.
  It makes one outbound call per recipient, in the order of the list, each in the state
  the previous call left the API in; the results are one record per recipient, in the
  same order, each built from its own recipient and the outcome of its own call: \<open>ok\<close> is
  true exactly when the call succeeded, and a failed call leaves an \<open>error\<close> in its record
  while the later recipients are still processed. The count returned is the number of
  records with \<open>ok\<close> true.
\<close>

theorem POST_one_record_each:
  assumes "req = Some b" and "get_prop b (js ''recipients'') = Some (JArr tos)" and "tos \<noteq> []"
    and "get_prop b (js ''message'') = Some m" and "truthy m"
    and "ACCESS_TOKEN e = Some token" and "token \<noteq> []"
    and "PHONE_NUMBER_ID e = Some pid" and "pid \<noteq> []"
  shows "\<exists>results outs w'.
      POST api e w req
        = (\<lparr>status = 200, payload = SendBody (length (filter ok results)) results\<rparr>,
           map (\<lambda>t. make_request token pid t m) tos, w')
      \<and> outs = outcomes api w (map (\<lambda>t. make_request token pid t m) tos)
      \<and> length outs = length tos
      \<and> results = map2 record_of tos outs
      \<and> length results = length tos
      \<and> map to results = tos
      \<and> map ok results = map succeeded outs
      \<and> list_all2 (\<lambda>r out. ok r = succeeded out \<and> (\<not> succeeded out \<longrightarrow> error r \<noteq> None))
           results outs
      \<and> length (filter ok results) = length (filter succeeded outs)"
proof -
  let ?calls = "map (\<lambda>t. make_request token pid t m) tos"
  let ?outs = "outcomes api w ?calls"
  let ?results = "map2 record_of tos ?outs"
  have len: "length ?outs = length tos"
    by (simp add: length_outcomes)
  from send_loop_eq [of api token pid m tos "[]" "[]" w]
  obtain w' where loop: "send_loop api token pid m tos [] [] w = (?results, ?calls, w')"
    by auto
  have post: "POST api e w req
      = (\<lparr>status = 200, payload = SendBody (length (filter ok ?results)) ?results\<rparr>, ?calls, w')"
    using assms loop by (cases tos) (simp_all add: POST_def Let_def or_else_def unset_def env_text_def)
  have "length (filter ok ?results) = length (filter succeeded ?outs)"
  proof -
    have "length (filter ok ?results) = length (filter id (map ok ?results))"
      by (simp add: filter_map comp_def)
    also have "\<dots> = length (filter id (map succeeded ?outs))"
      by (simp only: map_ok_records [OF len])
    also have "\<dots> = length (filter succeeded ?outs)"
      by (simp add: filter_map comp_def)
    finally show ?thesis .
  qed
  with post len map_to_records [OF len] map_ok_records [OF len] records_match_outcomes [OF len]
  show ?thesis
    by (intro exI [of _ ?results] exI [of _ ?outs] exI [of _ w']) simp
qed


theorem POST_one_record_each_witness:
  "\<exists>results w'.
      POST second_rejected configured 0 (Some send_request)
        = (\<lparr>status = 200, payload = SendBody 2 results\<rparr>,
           map (\<lambda>t. make_request (js ''token'') (js ''100200300'') t (JStr (js ''Hi there!'')))
             three_recipients, w')
      \<and> length results = 3
      \<and> map to results = three_recipients
      \<and> map ok results = [True, False, True]"
proof -
  let ?m = "JStr (js ''Hi there!'')"
  let ?calls = "map (\<lambda>t. make_request (js ''token'') (js ''100200300'') t ?m) three_recipients"
  have g: "get_prop send_request (js ''recipients'') = Some (JArr three_recipients)"
    "get_prop send_request (js ''message'') = Some ?m"
    by code_simp+
  have t: "three_recipients \<noteq> []" "length three_recipients = 3"
    by (simp_all add: three_recipients_def)
  have m: "truthy ?m" by (simp add: js_def)
  have e: "ACCESS_TOKEN configured = Some (js ''token'')" "js ''token'' \<noteq> []"
    "PHONE_NUMBER_ID configured = Some (js ''100200300'')" "js ''100200300'' \<noteq> []"
    by (simp_all add: configured_def js_def)
  have o: "map succeeded (outcomes second_rejected 0 ?calls) = [True, False, True]"
    by (simp add: three_recipients_def second_rejected_def)
  from POST_one_record_each [OF refl g(1) t(1) g(2) m e, of second_rejected 0]
  obtain results outs w' where
    post: "POST second_rejected configured 0 (Some send_request)
        = (\<lparr>status = 200, payload = SendBody (length (filter ok results)) results\<rparr>, ?calls, w')"
    and outs: "outs = outcomes second_rejected 0 ?calls"
    and r: "length results = length three_recipients" "map to results = three_recipients"
      "map ok results = map succeeded outs"
    by blast
  have "length (filter ok results) = length (filter id (map ok results))"
    by (simp add: filter_map comp_def)
  then have "length (filter ok results) = 2"
    unfolding r(3) outs o by simp
  with post r outs o t(2) show ?thesis
    by (intro exI [of _ results] exI [of _ w']) simp
qed

end
